theory Spec2Isabelle
  imports
    Complex_Main
    "HOL-Library.Char_ord"
    "HOL-Library.List_Lexorder"
    "HOL-Library.Option_ord"
begin

section \<open>Values of the host language\<close>

text \<open>
  A JavaScript \<^verbatim>\<open>number\<close> is modelled by its value: a rational, the two infinities or
  NaN. The comparisons are those of IEEE doubles, which are exact on the values; every
  comparison with NaN is false. Addition rounds and \<^verbatim>\<open>toFixed\<close> renders: both are taken
  from the environment of the service that uses them.
\<close>

datatype jsnum = Fin rat | PosInf | NegInf | NaN

fun Number_isFinite :: "jsnum \<Rightarrow> bool" where
  "Number_isFinite (Fin q) = True"
| "Number_isFinite PosInf = False"
| "Number_isFinite NegInf = False"
| "Number_isFinite NaN = False"

text \<open>\<^verbatim>\<open>a > b\<close>\<close>

fun js_gt :: "jsnum \<Rightarrow> jsnum \<Rightarrow> bool" where
  "js_gt (Fin a) (Fin b) = (b < a)"
| "js_gt (Fin a) NegInf = True"
| "js_gt (Fin a) PosInf = False"
| "js_gt (Fin a) NaN = False"
| "js_gt PosInf (Fin b) = True"
| "js_gt PosInf NegInf = True"
| "js_gt PosInf PosInf = False"
| "js_gt PosInf NaN = False"
| "js_gt NegInf b = False"
| "js_gt NaN b = False"

text \<open>\<^verbatim>\<open>a == b\<close> on numbers: NaN equals nothing.\<close>

definition js_eq :: "jsnum \<Rightarrow> jsnum \<Rightarrow> bool" where
  "js_eq a b = (a = b \<and> a \<noteq> NaN)"

text \<open>\<^verbatim>\<open>a >= b\<close> and \<^verbatim>\<open>a <= b\<close>\<close>

definition js_ge :: "jsnum \<Rightarrow> jsnum \<Rightarrow> bool" where
  "js_ge a b = (js_gt a b \<or> js_eq a b)"

definition js_le :: "jsnum \<Rightarrow> jsnum \<Rightarrow> bool" where
  "js_le a b = js_ge b a"

text \<open>
  Truthiness of a nullable string: \<^verbatim>\<open>null\<close>, \<^verbatim>\<open>undefined\<close> and the empty string are
  falsy.
\<close>

fun truthy :: "string option \<Rightarrow> bool" where
  "truthy None = False"
| "truthy (Some s) = (s \<noteq> [])"

text \<open>
  A thrown value: an \<^verbatim>\<open>Error\<close> with its message, or any other value, kept as the string
  \<^verbatim>\<open>String(err)\<close> gives for it.
\<close>

datatype thrown = Error string | NonError string

text \<open>\<^verbatim>\<open>err instanceof Error ? err.message : String(err)\<close>\<close>

fun err_msg :: "thrown \<Rightarrow> string" where
  "err_msg (Error m) = m"
| "err_msg (NonError s) = s"

text \<open>
  \<^verbatim>\<open>parseInt(s, 10)\<close>: leading white space, an optional sign, then the longest run of
  decimal digits; NaN when there is no digit.
\<close>

definition is_ws :: "char \<Rightarrow> bool" where
  "is_ws c = (c = CHR '' '' \<or> c = CHR 0x09 \<or> c = CHR 0x0A \<or> c = CHR 0x0B \<or> c = CHR 0x0C \<or> c = CHR 0x0D)"

definition is_digit :: "char \<Rightarrow> bool" where
  "is_digit c = (48 \<le> (of_char c :: nat) \<and> (of_char c :: nat) \<le> 57)"

fun digits_val :: "nat \<Rightarrow> string \<Rightarrow> nat" where
  "digits_val acc [] = acc"
| "digits_val acc (c # cs) = digits_val (10 * acc + (of_char c - 48)) cs"

definition parseInt :: "string \<Rightarrow> jsnum" where
  "parseInt s =
     (let t = dropWhile is_ws s;
          neg = (case t of [] \<Rightarrow> False | c # r \<Rightarrow> c = CHR ''-'');
          u = (case t of [] \<Rightarrow> [] | c # r \<Rightarrow> if c = CHR ''-'' \<or> c = CHR ''+'' then r else t);
          ds = takeWhile is_digit u
      in if ds = [] then NaN
         else if neg then Fin (- of_nat (digits_val 0 ds))
         else Fin (of_nat (digits_val 0 ds)))"

section \<open>The settlement store\<close>

datatype payment_status =
  pending | partially_paid | confirmed | overpaid | expired | failed | paid

text \<open>
  A row of the \<^verbatim>\<open>payment\<close> table, with the columns the three services read or write.
  Dates are milliseconds since the epoch; \<^verbatim>\<open>amount\<close> is the column as
  \<^verbatim>\<open>Number(p.amount)\<close> reads it.
\<close>

record payment =
  payment_id :: string
  merchantId :: string
  amount :: jsnum
  status :: payment_status
  expiration :: int
  stellar_address :: "string option"
  last_paging_token :: "string option"
  transaction_hash :: "string option"
  confirmed_at :: "int option"
  onchain_verified :: bool
  contract_tx_hash :: "string option"
  verification_error :: "string option"
  swept :: bool
  swept_at :: "int option"
  sweep_tx_hash :: "string option"

text \<open>
  The table is the list of its rows. \<^verbatim>\<open>id\<close> is the primary key, so the tables that
  occur have distinct ids.
\<close>

type_synonym store = "payment list"

definition ids :: "store \<Rightarrow> string set" where
  "ids s = payment_id ` set s"

definition wf_store :: "store \<Rightarrow> bool" where
  "wf_store s = distinct (map payment_id s)"

text \<open>\<^verbatim>\<open>prisma.payment.findUnique({ where: { id } })\<close>\<close>

definition findUnique :: "store \<Rightarrow> string \<Rightarrow> payment option" where
  "findUnique s i = find (\<lambda>q. payment_id q = i) s"

text \<open>
  \<^verbatim>\<open>prisma.payment.update({ where: { id }, data })\<close>: rewrites the row with that id, and
  throws when there is none.
\<close>

definition upd_row :: "string \<Rightarrow> (payment \<Rightarrow> payment) \<Rightarrow> store \<Rightarrow> store" where
  "upd_row i f s = map (\<lambda>q. if payment_id q = i then f q else q) s"

definition payment_update :: "store \<Rightarrow> string \<Rightarrow> (payment \<Rightarrow> payment) \<Rightarrow> thrown + store" where
  "payment_update s i f =
     (if i \<in> ids s then Inr (upd_row i f s)
      else Inl (Error ''Record to update not found.''))"

text \<open>
  \<^verbatim>\<open>orderBy: { confirmed_at: "asc" }\<close>: ascending, rows without a date last (the
  PostgreSQL default), rows with equal dates in table order.
\<close>

fun confirmed_le :: "int option \<Rightarrow> int option \<Rightarrow> bool" where
  "confirmed_le (Some a) (Some b) = (a \<le> b)"
| "confirmed_le (Some a) None = True"
| "confirmed_le None (Some b) = False"
| "confirmed_le None None = True"

fun insert_by_confirmed :: "payment \<Rightarrow> payment list \<Rightarrow> payment list" where
  "insert_by_confirmed p [] = [p]"
| "insert_by_confirmed p (q # qs) =
     (if confirmed_le (confirmed_at p) (confirmed_at q) then p # q # qs
      else q # insert_by_confirmed p qs)"

fun order_by_confirmed :: "payment list \<Rightarrow> payment list" where
  "order_by_confirmed [] = []"
| "order_by_confirmed (p # ps) = insert_by_confirmed p (order_by_confirmed ps)"

text \<open>
  \<^verbatim>\<open>take: n\<close> of a query: the first \<open>n\<close> rows, the last \<open>-n\<close> rows for a negative
  integer, and a validation error for a value that is not an integer.
\<close>

definition prisma_take :: "jsnum \<Rightarrow> 'a list \<Rightarrow> thrown + 'a list" where
  "prisma_take n xs =
     (case n of
        Fin q \<Rightarrow>
          if of_int \<lfloor>q\<rfloor> = q
          then (if 0 \<le> q then Inr (take (nat \<lfloor>q\<rfloor>) xs)
                else Inr (drop (length xs - nat (- \<lfloor>q\<rfloor>)) xs))
          else Inl (Error ''Invalid value provided for argument take.'')
      | _ \<Rightarrow> Inl (Error ''Invalid value provided for argument take.''))"

section \<open>Sweep service\<close>

record SweepOptions =
  limit :: "jsnum option"
  adminId :: "string option"
  dryRun :: bool

record keypair =
  publicKey :: string
  secretKey :: string

text \<open>The transaction \<^verbatim>\<open>submitUsdcSweepTx\<close> builds and signs: one payment operation.\<close>

record sweep_tx =
  tx_source :: string
  tx_signed_with :: string
  tx_destination :: string
  tx_amount :: string

text \<open>
  What the service reaches outside the store: the key deriver, the ledger client, the
  process environment and the clock. Each call either throws or returns. With them, the
  two operations on numbers that are not exact on the values: \<^verbatim>\<open>a + b\<close> in doubles and
  \<^verbatim>\<open>x.toFixed(7)\<close>.
\<close>

record sweep_env =
  regenerateKeypair :: "string \<Rightarrow> string \<Rightarrow> thrown + keypair"
  Keypair_fromSecret :: "string \<Rightarrow> thrown + string"
  server_loadAccount :: "string \<Rightarrow> thrown + unit"
  server_submitTransaction :: "sweep_tx \<Rightarrow> thrown + string"
  vaultKeypair_publicKey :: string
  SWEEP_BATCH_LIMIT :: "string option"
  new_Date :: "string \<Rightarrow> int"
  logSweepTrigger :: "string option"
  number_add :: "jsnum \<Rightarrow> jsnum \<Rightarrow> jsnum"
  toFixed7 :: "jsnum \<Rightarrow> string"

text \<open>
  \<^verbatim>\<open>new_Date i\<close> is the clock reading when payment \<open>i\<close> is marked;
  \<^verbatim>\<open>logSweepTrigger\<close> is the id of the audit entry, or \<^verbatim>\<open>null\<close> when the audit
  collaborator failed (its wrapper catches every error).
\<close>

text \<open>The eligible payments: \<^verbatim>\<open>where\<close> clause of \<^verbatim>\<open>getUnsweptPaidPayments\<close>.\<close>

definition unswept_paid :: "payment \<Rightarrow> bool" where
  "unswept_paid p =
     (swept p = False \<and> stellar_address p \<noteq> None \<and> status p \<in> {confirmed, overpaid, paid})"

definition getUnsweptPaidPayments :: "store \<Rightarrow> jsnum \<Rightarrow> thrown + payment list" where
  "getUnsweptPaidPayments s n = prisma_take n (order_by_confirmed (filter unswept_paid s))"

text \<open>
  \<^verbatim>\<open>submitUsdcSweepTx\<close>: the key pair of the secret, the source account, the signed
  transaction, its submission. Returned with the result: the transactions handed to
  \<^verbatim>\<open>server.submitTransaction\<close> (none or one).
\<close>

definition submitUsdcSweepTx ::
  "sweep_env \<Rightarrow> string \<Rightarrow> string \<Rightarrow> string \<Rightarrow> (thrown + string) \<times> sweep_tx list" where
  "submitUsdcSweepTx env sourceSecret destination amt =
     (case Keypair_fromSecret env sourceSecret of
        Inl e \<Rightarrow> (Inl e, [])
      | Inr src \<Rightarrow>
          (case server_loadAccount env src of
             Inl e \<Rightarrow> (Inl e, [])
           | Inr _ \<Rightarrow>
               (let tx = \<lparr>tx_source = src, tx_signed_with = sourceSecret,
                          tx_destination = destination, tx_amount = amt\<rparr>
                in (server_submitTransaction env tx, [tx]))))"

text \<open>
  The running values of one sweep run, with the store and the transactions submitted to
  the ledger, each under the id of the payment whose iteration submitted it.
\<close>

record sweep_state =
  db :: store
  submitted :: "(string \<times> sweep_tx) list"
  txHashes :: "string list"
  skipped :: "(string \<times> string) list"
  total_amount :: jsnum
  addressesSwept :: nat

definition skip :: "payment \<Rightarrow> string \<Rightarrow> sweep_state \<Rightarrow> sweep_state" where
  "skip p reason st = st\<lparr>skipped := skipped st @ [(payment_id p, reason)]\<rparr>"

text \<open>The body of the loop of \<^verbatim>\<open>sweepPaidPayments\<close>, with its \<^verbatim>\<open>try\<close>/\<^verbatim>\<open>catch\<close>.\<close>

definition sweep_payment :: "sweep_env \<Rightarrow> bool \<Rightarrow> payment \<Rightarrow> sweep_state \<Rightarrow> sweep_state" where
  "sweep_payment env dry p st =
     (let expected = amount p in
      if \<not> Number_isFinite expected \<or> js_le expected (Fin 0)
      then skip p ''Invalid amount'' st
      else
        (case regenerateKeypair env (merchantId p) (payment_id p) of
           Inl e \<Rightarrow> skip p (err_msg e) st
         | Inr kp \<Rightarrow>
             if truthy (stellar_address p) \<and> Some (publicKey kp) \<noteq> stellar_address p
             then skip p ''Derived address mismatch'' st
             else if dry
             then st\<lparr>addressesSwept := addressesSwept st + 1,
                     total_amount := number_add env (total_amount st) expected\<rparr>
             else
               (case submitUsdcSweepTx env (secretKey kp) (vaultKeypair_publicKey env)
                       (toFixed7 env expected) of
                  (res, txs) \<Rightarrow>
                    (let st1 = st\<lparr>submitted := submitted st @ map (Pair (payment_id p)) txs\<rparr> in
                     case res of
                       Inl e \<Rightarrow> skip p (err_msg e) st1
                     | Inr hash \<Rightarrow>
                         (case payment_update (db st1) (payment_id p)
                                 (\<lambda>q. q\<lparr>swept := True,
                                        swept_at := Some (new_Date env (payment_id p)),
                                        sweep_tx_hash := Some hash\<rparr>) of
                            Inl e \<Rightarrow> skip p (err_msg e) st1
                          | Inr s' \<Rightarrow>
                              st1\<lparr>db := s',
                                  txHashes := txHashes st1 @ [hash],
                                  addressesSwept := addressesSwept st1 + 1,
                                  total_amount := number_add env (total_amount st1) expected\<rparr>)))))"

fun sweep_loop :: "sweep_env \<Rightarrow> bool \<Rightarrow> payment list \<Rightarrow> sweep_state \<Rightarrow> sweep_state" where
  "sweep_loop env dry [] st = st"
| "sweep_loop env dry (p # ps) st = sweep_loop env dry ps (sweep_payment env dry p st)"

text \<open>The cap of a run: the option when it is a finite positive number, the setting otherwise.\<close>

definition batch_limit_setting :: "sweep_env \<Rightarrow> jsnum" where
  "batch_limit_setting env =
     parseInt (case SWEEP_BATCH_LIMIT env of
                 None \<Rightarrow> ''200''
               | Some v \<Rightarrow> if v = [] then ''200'' else v)"

definition sweep_limit :: "sweep_env \<Rightarrow> SweepOptions \<Rightarrow> jsnum" where
  "sweep_limit env options =
     (case limit options of
        Some n \<Rightarrow> if Number_isFinite n \<and> js_gt n (Fin 0) then n else batch_limit_setting env
      | None \<Rightarrow> batch_limit_setting env)"

datatype audit_status = completed | failed_run

text \<open>
  The result of \<^verbatim>\<open>sweepPaidPayments\<close> (without its id and dates), the store and the
  ledger submissions after the run, and the completion handed to the audit collaborator.
\<close>

record SweepResult =
  r_addressesSwept :: nat
  r_totalAmount :: string
  r_masterVaultPublicKey :: string
  r_txHashes :: "string list"
  r_skipped :: "(string \<times> string) list"

record sweep_run =
  run_result :: SweepResult
  run_db :: store
  run_submitted :: "(string \<times> sweep_tx) list"
  run_audit :: "(string \<times> audit_status) option"

definition sweep_init :: "store \<Rightarrow> sweep_state" where
  "sweep_init s = \<lparr>db = s, submitted = [], txHashes = [], skipped = [],
                   total_amount = Fin 0, addressesSwept = 0\<rparr>"

definition sweep_finish :: "sweep_env \<Rightarrow> sweep_state \<Rightarrow> sweep_run" where
  "sweep_finish env st =
     \<lparr>run_result = \<lparr>r_addressesSwept = addressesSwept st,
                     r_totalAmount = toFixed7 env (total_amount st),
                     r_masterVaultPublicKey = vaultKeypair_publicKey env,
                     r_txHashes = txHashes st,
                     r_skipped = skipped st\<rparr>,
      run_db = db st,
      run_submitted = submitted st,
      run_audit =
        (case logSweepTrigger env of
           None \<Rightarrow> None
         | Some a \<Rightarrow>
             Some (a, if skipped st \<noteq> [] \<and> addressesSwept st = 0 then failed_run else completed))\<rparr>"

definition sweepPaidPayments :: "sweep_env \<Rightarrow> SweepOptions \<Rightarrow> store \<Rightarrow> thrown + sweep_run" where
  "sweepPaidPayments env options s =
     (case getUnsweptPaidPayments s (sweep_limit env options) of
        Inl e \<Rightarrow> Inl e
      | Inr payments \<Rightarrow>
          Inr (sweep_finish env (sweep_loop env (dryRun options) payments (sweep_init s))))"

section \<open>Payment monitor\<close>

text \<open>A balance line of a ledger account; \<^verbatim>\<open>balance\<close> as \<^verbatim>\<open>parseFloat\<close> reads it.\<close>

record balance_line =
  asset_code :: "string option"
  asset_issuer :: "string option"
  balance :: jsnum

text \<open>A record of the payments endpoint of the ledger.\<close>

record operation_record =
  paging_token :: string
  op_type :: string
  op_asset_type :: "string option"
  op_asset_code :: "string option"
  op_asset_issuer :: "string option"
  op_transaction_hash :: string
  op_from :: string

text \<open>What a \<^verbatim>\<open>catch\<close> of the monitor sees: an HTTP error with its status, or anything else.\<close>

datatype caught = Http nat | Other string

text \<open>
  The ledger client, the expected asset and the event bus. \<^verbatim>\<open>payments_call a c\<close> is the
  query for account \<open>a\<close>, newest first, ten records, from cursor \<open>c\<close> when there is one.
  \<^verbatim>\<open>getUsdcAsset\<close> is \<^verbatim>\<open>new Asset('USDC', USDC_ISSUER()).issuer\<close>: the constructor throws
  when the configured issuer is not a valid account key, and the issuer is returned
  otherwise. \<^verbatim>\<open>event_failure i\<close> is what importing the event modules or emitting the
  event for payment \<open>i\<close> throws, if anything.
\<close>

record monitor_env =
  loadAccount :: "string \<Rightarrow> caught + balance_line list"
  payments_call :: "string \<Rightarrow> string option \<Rightarrow> caught + operation_record list"
  getUsdcAsset :: "caught + string"
  event_failure :: "string \<Rightarrow> caught option"

text \<open>
  The running values of a tick: the store, the calls of
  \<^verbatim>\<open>paymentContractService.verify_payment\<close> started (payment, transaction hash, amount),
  the \<^verbatim>\<open>PAYMENT_CONFIRMED\<close> events emitted, and the addresses whose error was logged.
\<close>

record tick_state =
  tdb :: store
  verifications :: "(string \<times> string \<times> jsnum) list"
  events :: "payment list"
  error_log :: "string list"

record scan =
  latestPagingToken :: "string option"
  latestTxHash :: "string option"
  latestPayer :: "string option"

text \<open>
  The test on a record of the loop. The asset is built only when the three tests
  before it hold, as \<^verbatim>\<open>&&\<close> evaluates.
\<close>

definition is_usdc_payment :: "monitor_env \<Rightarrow> operation_record \<Rightarrow> caught + bool" where
  "is_usdc_payment env r =
     (if op_type r = ''payment'' \<and> op_asset_type r = Some ''credit_alphanum4'' \<and>
         op_asset_code r = Some ''USDC''
      then (case getUsdcAsset env of
              Inl e \<Rightarrow> Inl e
            | Inr issuer \<Rightarrow> Inr (op_asset_issuer r = Some issuer))
      else Inr False)"

text \<open>\<^verbatim>\<open>record.paging_token > latestPagingToken\<close> compares strings, character by character.\<close>

definition token_newer :: "string \<Rightarrow> string option \<Rightarrow> bool" where
  "token_newer tok latest =
     (tok \<noteq> [] \<and> (case latest of None \<Rightarrow> True | Some l \<Rightarrow> l = [] \<or> l < tok))"

text \<open>The body of the loop over the returned records.\<close>

definition scan_record :: "monitor_env \<Rightarrow> scan \<Rightarrow> operation_record \<Rightarrow> caught + scan" where
  "scan_record env sc r =
     (let sc1 = (if token_newer (paging_token r) (latestPagingToken sc)
                 then sc\<lparr>latestPagingToken := Some (paging_token r)\<rparr> else sc)
      in case is_usdc_payment env r of
           Inl e \<Rightarrow> Inl e
         | Inr matches \<Rightarrow>
             Inr (if matches \<and> \<not> truthy (latestTxHash sc1)
                  then sc1\<lparr>latestTxHash := Some (op_transaction_hash r),
                           latestPayer := Some (op_from r)\<rparr>
                  else sc1))"

text \<open>The loop over the returned records; it ends at the first record whose test throws.\<close>

fun scan_loop :: "monitor_env \<Rightarrow> scan \<Rightarrow> operation_record list \<Rightarrow> caught + scan" where
  "scan_loop env sc [] = Inr sc"
| "scan_loop env sc (r # rs) =
     (case scan_record env sc r of
        Inl e \<Rightarrow> Inl e
      | Inr sc' \<Rightarrow> scan_loop env sc' rs)"

definition scan_records ::
  "monitor_env \<Rightarrow> string option \<Rightarrow> operation_record list \<Rightarrow> caught + scan" where
  "scan_records env cursor records =
     scan_loop env \<lparr>latestPagingToken = cursor, latestTxHash = None, latestPayer = None\<rparr> records"

text \<open>
  \<^verbatim>\<open>account.balances.find\<close> with the test of the source: the asset is built at each line
  whose code is \<^verbatim>\<open>USDC\<close>, up to the first line that matches.
\<close>

fun usdcBalanceRecord :: "monitor_env \<Rightarrow> balance_line list \<Rightarrow> caught + balance_line option" where
  "usdcBalanceRecord env [] = Inr None"
| "usdcBalanceRecord env (b # bs) =
     (if asset_code b \<noteq> None \<and> asset_code b = Some ''USDC''
      then (case getUsdcAsset env of
              Inl e \<Rightarrow> Inl e
            | Inr issuer \<Rightarrow>
                if asset_issuer b = Some issuer then Inr (Some b) else usdcBalanceRecord env bs)
      else usdcBalanceRecord env bs)"

text \<open>The cumulative balance of the expected asset, zero without a line for it.\<close>

definition totalReceived :: "monitor_env \<Rightarrow> balance_line list \<Rightarrow> caught + jsnum" where
  "totalReceived env balances =
     (case usdcBalanceRecord env balances of
        Inl e \<Rightarrow> Inl e
      | Inr None \<Rightarrow> Inr (Fin 0)
      | Inr (Some b) \<Rightarrow> Inr (balance b))"

text \<open>\<^verbatim>\<open>newStatus\<close>, undefined when nothing was received.\<close>

definition newStatus :: "jsnum \<Rightarrow> jsnum \<Rightarrow> payment_status option" where
  "newStatus received expectedAmount =
     (if js_ge received expectedAmount
      then Some (if js_gt received expectedAmount then overpaid else confirmed)
      else if js_gt received (Fin 0) then Some partially_paid
      else None)"

text \<open>The \<^verbatim>\<open>catch\<close> of the loop body: logs everything but a 404.\<close>

definition catch_error :: "caught \<Rightarrow> string \<Rightarrow> tick_state \<Rightarrow> tick_state" where
  "catch_error e address st =
     (if e \<noteq> Http 404 then st\<lparr>error_log := error_log st @ [address]\<rparr> else st)"

definition query_cursor :: "payment \<Rightarrow> string option" where
  "query_cursor payment =
     (if truthy (last_paging_token payment) then last_paging_token payment else None)"

text \<open>The body of the loop of \<^verbatim>\<open>runPaymentMonitorTick\<close>.\<close>

definition monitor_payment :: "monitor_env \<Rightarrow> payment \<Rightarrow> tick_state \<Rightarrow> tick_state" where
  "monitor_payment env payment st =
     (case stellar_address payment of
        None \<Rightarrow> st
      | Some address \<Rightarrow>
          if address = [] then st
          else
            (case loadAccount env address of
               Inl e \<Rightarrow> catch_error e address st
             | Inr balances \<Rightarrow>
            (case totalReceived env balances of
               Inl e \<Rightarrow> catch_error e address st
             | Inr received \<Rightarrow>
            (case payments_call env address (query_cursor payment) of
               Inl e \<Rightarrow> catch_error e address st
             | Inr records \<Rightarrow>
            (case scan_records env (last_paging_token payment) records of
               Inl e \<Rightarrow> catch_error e address st
             | Inr sc \<Rightarrow>
                      (let new = newStatus received (amount payment)
                       in if new \<noteq> None \<and> (new \<noteq> Some (status payment) \<or> truthy (latestTxHash sc))
                          then
                            (case payment_update (tdb st) (payment_id payment)
                                    (\<lambda>q. if truthy (latestTxHash sc)
                                         then q\<lparr>status := the new,
                                                last_paging_token := latestPagingToken sc,
                                                transaction_hash := latestTxHash sc\<rparr>
                                         else q\<lparr>status := the new,
                                                last_paging_token := latestPagingToken sc\<rparr>) of
                               Inl e \<Rightarrow> catch_error (Other (err_msg e)) address st
                             | Inr s' \<Rightarrow>
                                 (let st1 = st\<lparr>tdb := s'\<rparr> in
                                  if (new = Some confirmed \<or> new = Some overpaid) \<and> truthy (latestTxHash sc)
                                  then
                                    (let st2 = st1\<lparr>verifications := verifications st1 @
                                                 [(payment_id payment, the (latestTxHash sc), received)]\<rparr>
                                     in case event_failure env (payment_id payment) of
                                          Some e \<Rightarrow> catch_error e address st2
                                        | None \<Rightarrow>
                                            (case findUnique (tdb st2) (payment_id payment) of
                                               None \<Rightarrow> st2
                                             | Some updatedPayment \<Rightarrow>
                                                 st2\<lparr>events := events st2 @ [updatedPayment]\<rparr>))
                                  else st1))
                          else if truthy (latestPagingToken sc) \<and>
                                  latestPagingToken sc \<noteq> last_paging_token payment
                          then
                            (case payment_update (tdb st) (payment_id payment)
                                    (\<lambda>q. q\<lparr>last_paging_token := latestPagingToken sc\<rparr>) of
                               Inl e \<Rightarrow> catch_error (Other (err_msg e)) address st
                             | Inr s' \<Rightarrow> st\<lparr>tdb := s'\<rparr>)
                          else st))))))"

fun monitor_loop :: "monitor_env \<Rightarrow> payment list \<Rightarrow> tick_state \<Rightarrow> tick_state" where
  "monitor_loop env [] st = st"
| "monitor_loop env (p # ps) st = monitor_loop env ps (monitor_payment env p st)"

text \<open>\<^verbatim>\<open>updateMany\<close>: every pending or partially paid row whose expiration has passed.\<close>

definition expire_row :: "int \<Rightarrow> payment \<Rightarrow> payment" where
  "expire_row now q =
     (if status q \<in> {pending, partially_paid} \<and> expiration q \<le> now
      then q\<lparr>status := expired\<rparr> else q)"

definition expire_overdue :: "int \<Rightarrow> store \<Rightarrow> store" where
  "expire_overdue now s = map (expire_row now) s"

text \<open>\<^verbatim>\<open>findMany\<close>: the active payments that have an address.\<close>

definition is_active :: "int \<Rightarrow> payment \<Rightarrow> bool" where
  "is_active now q =
     (status q \<in> {pending, partially_paid} \<and> now < expiration q \<and> stellar_address q \<noteq> None)"

definition active_payments :: "int \<Rightarrow> store \<Rightarrow> payment list" where
  "active_payments now s = filter (is_active now) s"

definition runPaymentMonitorTick :: "monitor_env \<Rightarrow> int \<Rightarrow> store \<Rightarrow> tick_state" where
  "runPaymentMonitorTick env now s =
     (let s1 = expire_overdue now s
      in monitor_loop env (active_payments now s1)
           \<lparr>tdb = s1, verifications = [], events = [], error_log = []\<rparr>)"

section \<open>Payment contract service\<close>

text \<open>
  The configured contract and the verifier call: \<^verbatim>\<open>invokeVerifyContract\<close> at its
  \<open>k\<close>-th call of an invocation either throws or returns the hash of the finished
  transaction.
\<close>

record verify_env =
  contractId :: string
  invokeVerifyContract :: "nat \<Rightarrow> string \<Rightarrow> string \<Rightarrow> jsnum \<Rightarrow> thrown + string"

text \<open>
  The store, the number of verifier calls made, the delays waited (milliseconds) and the
  entries of the manual-intervention log.
\<close>

record verify_state =
  vdb :: store
  invocations :: nat
  delays :: "nat list"
  manual_intervention :: "(string \<times> string) list"

definition MAX_RETRIES :: nat where
  "MAX_RETRIES = 3"

definition baseDelay :: nat where
  "baseDelay = 1000"

text \<open>The \<^verbatim>\<open>try\<close> block: the verifier call, then the update of the row.\<close>

definition verify_attempt ::
  "verify_env \<Rightarrow> string \<Rightarrow> string \<Rightarrow> jsnum \<Rightarrow> verify_state \<Rightarrow> thrown + store" where
  "verify_attempt env paymentId txHash amt st =
     (case invokeVerifyContract env (invocations st) paymentId txHash amt of
        Inl e \<Rightarrow> Inl e
      | Inr hash \<Rightarrow>
          payment_update (vdb st) paymentId
            (\<lambda>q. q\<lparr>onchain_verified := True,
                   contract_tx_hash := Some hash,
                   verification_error := None\<rparr>))"

fun errorMessage :: "thrown \<Rightarrow> string" where
  "errorMessage (Error m) = m"
| "errorMessage (NonError v) = ''Unknown error''"

text \<open>The \<^verbatim>\<open>while\<close> loop; \<open>Inl\<close> when the invocation itself throws.\<close>

function verify_loop ::
  "verify_env \<Rightarrow> string \<Rightarrow> string \<Rightarrow> jsnum \<Rightarrow> nat \<Rightarrow> verify_state \<Rightarrow> (thrown + bool) \<times> verify_state" where
  "verify_loop env paymentId txHash amt attempt st =
     (if attempt < MAX_RETRIES
      then
        (case verify_attempt env paymentId txHash amt st of
           Inr s' \<Rightarrow> (Inr True, st\<lparr>vdb := s', invocations := invocations st + 1\<rparr>)
         | Inl error \<Rightarrow>
             (let st1 = st\<lparr>invocations := invocations st + 1\<rparr> in
              if attempt + 1 \<ge> MAX_RETRIES
              then
                (case payment_update (vdb st1) paymentId
                        (\<lambda>q. q\<lparr>verification_error := Some (errorMessage error)\<rparr>) of
                   Inl e \<Rightarrow> (Inl e, st1)
                 | Inr s' \<Rightarrow>
                     (Inr False,
                      st1\<lparr>vdb := s',
                          manual_intervention :=
                            manual_intervention st1 @ [(paymentId, errorMessage error)]\<rparr>))
              else verify_loop env paymentId txHash amt (attempt + 1)
                     (st1\<lparr>delays := delays st1 @ [baseDelay * 2 ^ (attempt + 1 - 1)]\<rparr>)))
      else (Inr False, st))"
  by pat_completeness auto
termination
  by (relation "measure (\<lambda>(env, paymentId, txHash, amt, attempt, st). MAX_RETRIES - attempt)") auto

declare verify_loop.simps [simp del]

definition verify_payment ::
  "verify_env \<Rightarrow> string \<Rightarrow> string \<Rightarrow> jsnum \<Rightarrow> store \<Rightarrow> (thrown + bool) \<times> verify_state" where
  "verify_payment env paymentId txHash amt s =
     (let st = \<lparr>vdb = s, invocations = 0, delays = [], manual_intervention = []\<rparr>
      in if contractId env = [] then (Inr False, st)
         else verify_loop env paymentId txHash amt 0 st)"

section \<open>Descriptions used in the statements\<close>

text \<open>What one payment of a sweep selection runs into, taken alone.\<close>

definition invalid_amount :: "payment \<Rightarrow> bool" where
  "invalid_amount p = (\<not> Number_isFinite (amount p) \<or> js_le (amount p) (Fin 0))"

definition address_mismatch :: "keypair \<Rightarrow> payment \<Rightarrow> bool" where
  "address_mismatch kp p = (truthy (stellar_address p) \<and> Some (publicKey kp) \<noteq> stellar_address p)"

definition skip_reason :: "sweep_env \<Rightarrow> bool \<Rightarrow> payment \<Rightarrow> string option" where
  "skip_reason env dry p =
     (if invalid_amount p then Some ''Invalid amount''
      else
        (case regenerateKeypair env (merchantId p) (payment_id p) of
           Inl e \<Rightarrow> Some (err_msg e)
         | Inr kp \<Rightarrow>
             if address_mismatch kp p then Some ''Derived address mismatch''
             else if dry then None
             else
               (case fst (submitUsdcSweepTx env (secretKey kp) (vaultKeypair_publicKey env)
        (toFixed7 env (amount p))) of
                  Inl e \<Rightarrow> Some (err_msg e)
                | Inr hash \<Rightarrow> None)))"

definition sweep_mark :: "int \<Rightarrow> string \<Rightarrow> payment \<Rightarrow> payment" where
  "sweep_mark t hash q = q\<lparr>swept := True, swept_at := Some t, sweep_tx_hash := Some hash\<rparr>"

definition skipped_of :: "sweep_env \<Rightarrow> bool \<Rightarrow> payment list \<Rightarrow> (string \<times> string) list" where
  "skipped_of env dry ps =
     map (\<lambda>p. (payment_id p, the (skip_reason env dry p)))
       (filter (\<lambda>p. skip_reason env dry p \<noteq> None) ps)"

text \<open>Relations between a row before and after an operation.\<close>

definition swept_kept :: "payment \<Rightarrow> payment \<Rightarrow> bool" where
  "swept_kept q q' = (payment_id q' = payment_id q \<and> (swept q \<longrightarrow> swept q'))"

definition settlement_kept :: "payment \<Rightarrow> payment \<Rightarrow> bool" where
  "settlement_kept q q' =
     (payment_id q' = payment_id q \<and> status q' = status q \<and> swept q' = swept q \<and>
      swept_at q' = swept_at q \<and> sweep_tx_hash q' = sweep_tx_hash q)"

text \<open>
  What a tick observes for one payment when nothing throws before the status is chosen:
  the balance of the expected asset and the scan of the returned records.
\<close>

definition observed :: "monitor_env \<Rightarrow> payment \<Rightarrow> (jsnum \<times> scan) option" where
  "observed env p =
     (case stellar_address p of
        None \<Rightarrow> None
      | Some a \<Rightarrow>
          if a = [] then None
          else
            (case loadAccount env a of
               Inl e \<Rightarrow> None
             | Inr balances \<Rightarrow>
            (case totalReceived env balances of
               Inl e \<Rightarrow> None
             | Inr received \<Rightarrow>
            (case payments_call env a (query_cursor p) of
               Inl e \<Rightarrow> None
             | Inr records \<Rightarrow>
            (case scan_records env (last_paging_token p) records of
               Inl e \<Rightarrow> None
             | Inr sc \<Rightarrow> Some (received, sc))))))"

text \<open>
  A returned record that is a transfer of the expected asset, with a transaction hash: a
  payment operation in the four-letter credit asset \<^verbatim>\<open>USDC\<close> of the given issuer.
\<close>

definition expected_transfer :: "string \<Rightarrow> operation_record \<Rightarrow> bool" where
  "expected_transfer issuer r =
     (op_type r = ''payment'' \<and> op_asset_type r = Some ''credit_alphanum4'' \<and>
      op_asset_code r = Some ''USDC'' \<and> op_asset_issuer r = Some issuer \<and>
      op_transaction_hash r \<noteq> [])"

text \<open>The row of payment \<open>p\<close> after its iteration of the tick, and after the whole tick.\<close>

definition monitor_row :: "monitor_env \<Rightarrow> payment \<Rightarrow> payment \<Rightarrow> payment" where
  "monitor_row env p q =
     (case observed env p of
        None \<Rightarrow> q
      | Some (received, sc) \<Rightarrow>
          (let new = newStatus received (amount p)
           in if new \<noteq> None \<and> (new \<noteq> Some (status p) \<or> truthy (latestTxHash sc))
              then (if truthy (latestTxHash sc)
                    then q\<lparr>status := the new,
                           last_paging_token := latestPagingToken sc,
                           transaction_hash := latestTxHash sc\<rparr>
                    else q\<lparr>status := the new,
                           last_paging_token := latestPagingToken sc\<rparr>)
              else if truthy (latestPagingToken sc) \<and> latestPagingToken sc \<noteq> last_paging_token p
              then q\<lparr>last_paging_token := latestPagingToken sc\<rparr>
              else q))"

definition apply_rows :: "(payment \<Rightarrow> payment \<Rightarrow> payment) \<Rightarrow> payment list \<Rightarrow> store \<Rightarrow> store" where
  "apply_rows F ps s = foldl (\<lambda>s p. upd_row (payment_id p) (F p) s) s ps"

definition tick_row :: "monitor_env \<Rightarrow> int \<Rightarrow> payment \<Rightarrow> payment" where
  "tick_row env now q0 =
     (let q = expire_row now q0 in if is_active now q then monitor_row env q q else q)"

text \<open>The two updates of the payment contract service.\<close>

definition mark_verified :: "string \<Rightarrow> payment \<Rightarrow> payment" where
  "mark_verified hash q =
     q\<lparr>onchain_verified := True, contract_tx_hash := Some hash, verification_error := None\<rparr>"

definition mark_failed :: "string \<Rightarrow> payment \<Rightarrow> payment" where
  "mark_failed msg q = q\<lparr>verification_error := Some msg\<rparr>"

text \<open>
  The operations of the settlement pipeline on the store, and a history of them. A sweep
  whose selection throws leaves the store as it was.
\<close>

datatype operation =
    Sweep sweep_env SweepOptions
  | Tick monitor_env int
  | Verify verify_env string string jsnum

fun apply_operation :: "operation \<Rightarrow> store \<Rightarrow> store" where
  "apply_operation (Sweep env options) s =
     (case sweepPaidPayments env options s of Inl e \<Rightarrow> s | Inr r \<Rightarrow> run_db r)"
| "apply_operation (Tick env now) s = tdb (runPaymentMonitorTick env now s)"
| "apply_operation (Verify env paymentId txHash amt) s =
     vdb (snd (verify_payment env paymentId txHash amt s))"

fun apply_operations :: "operation list \<Rightarrow> store \<Rightarrow> store" where
  "apply_operations [] s = s"
| "apply_operations (op # ops) s = apply_operations ops (apply_operation op s)"

text \<open>
  A selected payment that a dry run counts: a finite positive amount and a re-derived key
  that matches the stored address.
\<close>

definition would_sweep :: "sweep_env \<Rightarrow> payment \<Rightarrow> bool" where
  "would_sweep env p =
     (Number_isFinite (amount p) \<and> js_gt (amount p) (Fin 0) \<and>
      (case regenerateKeypair env (merchantId p) (payment_id p) of
         Inl e \<Rightarrow> False
       | Inr kp \<Rightarrow> \<not> address_mismatch kp p))"

text \<open>
  What an invocation of the verification leaves, for its result \<open>res\<close> and final state
  \<open>st\<close>: the bound on the calls, the delays, the rows and the log.
\<close>

definition verify_post ::
  "verify_env \<Rightarrow> string \<Rightarrow> string \<Rightarrow> jsnum \<Rightarrow> store \<Rightarrow> bool \<Rightarrow> verify_state \<Rightarrow> bool" where
  "verify_post env paymentId txHash amt s res st =
    (invocations st \<le> 3 \<and>
     delays st = map (\<lambda>k. 1000 * 2 ^ k) [0..<invocations st - 1] \<and>
     (\<forall>k<invocations st - 1. \<exists>e. invokeVerifyContract env k paymentId txHash amt = Inl e) \<and>
     list_all2 settlement_kept s (vdb st) \<and>
     (res \<longrightarrow>
        manual_intervention st = [] \<and>
        (\<exists>h q. invokeVerifyContract env (invocations st - 1) paymentId txHash amt = Inr h \<and>
           findUnique (vdb st) paymentId = Some q \<and> onchain_verified q \<and>
           verification_error q = None \<and> contract_tx_hash q = Some h)) \<and>
     (contractId env \<noteq> [] \<and> (\<exists>k<3. \<exists>h. invokeVerifyContract env k paymentId txHash amt = Inr h)
        \<longrightarrow> res) \<and>
     (\<not> res \<and> contractId env \<noteq> [] \<longrightarrow>
        invocations st = 3 \<and>
        (\<exists>e q. invokeVerifyContract env 2 paymentId txHash amt = Inl e \<and>
           findUnique (vdb st) paymentId = Some q \<and>
           verification_error q = Some (errorMessage e) \<and>
           manual_intervention st = [(paymentId, errorMessage e)])) \<and>
     (contractId env = [] \<longrightarrow> \<not> res \<and> invocations st = 0 \<and> vdb st = s))"

text \<open>
  The configured batch limit in the words of the specification: the number that
  \<^verbatim>\<open>SWEEP_BATCH_LIMIT\<close> writes in decimal digits, and 200 when the variable is not set or
  empty.
\<close>

fun decimal_value :: "string \<Rightarrow> nat" where
  "decimal_value [] = 0"
| "decimal_value (c # cs) = (of_char c - 48) * 10 ^ length cs + decimal_value cs"



section \<open>A small store and ledger\<close>

text \<open>
  Four payments: \<open>p1\<close> confirmed, \<open>p2\<close> confirmed with an amount that is not a number,
  \<open>p3\<close> overpaid, \<open>p4\<close> pending; a key deriver that answers \<open>G\<close>\<open>id\<close> and \<open>S\<close>\<open>id\<close>,
  and a ledger that accepts every transfer. Its addition and rendering are those of
  doubles on the amounts of the store (50, 100 and their sums), where doubles are exact.
\<close>

definition example_payment :: payment where
  "example_payment =
     \<lparr>payment_id = ''p1'', merchantId = ''m1'', amount = Fin 100, status = confirmed,
      expiration = 1000, stellar_address = Some ''Gp1'', last_paging_token = None,
      transaction_hash = None, confirmed_at = Some 10, onchain_verified = False,
      contract_tx_hash = None, verification_error = None, swept = False, swept_at = None,
      sweep_tx_hash = None\<rparr>"

definition example_sweep_env :: sweep_env where
  "example_sweep_env =
     \<lparr>regenerateKeypair = (\<lambda>m i. Inr \<lparr>publicKey = ''G'' @ i, secretKey = ''S'' @ i\<rparr>),
      Keypair_fromSecret = (\<lambda>k. Inr (''G'' @ tl k)),
      server_loadAccount = (\<lambda>a. Inr ()),
      server_submitTransaction = (\<lambda>tx. Inr (''H'' @ tl (tx_source tx))),
      vaultKeypair_publicKey = ''GVAULT'',
      SWEEP_BATCH_LIMIT = None,
      new_Date = (\<lambda>i. 5000),
      logSweepTrigger = Some ''audit1'',
      number_add = (\<lambda>a b. case (a, b) of (Fin x, Fin y) \<Rightarrow> Fin (x + y) | _ \<Rightarrow> NaN),
      toFixed7 =
        (\<lambda>x. if x = Fin 50 then ''50.0000000''
             else if x = Fin 100 then ''100.0000000''
             else if x = Fin 150 then ''150.0000000''
             else ''0.0000000'')\<rparr>"

definition example_options :: SweepOptions where
  "example_options = \<lparr>limit = None, adminId = None, dryRun = False\<rparr>"

definition example_store :: store where
  "example_store =
     [example_payment,
      example_payment\<lparr>payment_id := ''p2'', stellar_address := Some ''Gp2'', amount := NaN,
                       confirmed_at := Some 20\<rparr>,
      example_payment\<lparr>payment_id := ''p3'', stellar_address := Some ''Gp3'', amount := Fin 50,
                       status := overpaid, confirmed_at := Some 30\<rparr>,
      example_payment\<lparr>payment_id := ''p4'', stellar_address := Some ''Gp4'', status := pending,
                       confirmed_at := None\<rparr>]"

text \<open>The eligible payments that are valid for the example key deriver.\<close>

definition would_be_swept :: "payment \<Rightarrow> bool" where
  "would_be_swept p = (unswept_paid p \<and> would_sweep example_sweep_env p)"

text \<open>The pending payment \<open>p4\<close> of the store.\<close>

definition example_pending :: payment where
  "example_pending =
     example_payment\<lparr>payment_id := ''p4'', stellar_address := Some ''Gp4'', status := pending,
                      confirmed_at := None\<rparr>"

text \<open>
  A ledger that knows the address of \<open>p4\<close> with a balance of 100 and answers every
  history query with one matching transfer; a verifier whose first two calls fail.
\<close>

definition example_monitor_env :: monitor_env where
  "example_monitor_env =
     \<lparr>loadAccount =
        (\<lambda>a. if a = ''Gp4''
             then Inr [\<lparr>asset_code = Some ''USDC'', asset_issuer = Some ''GISSUER'', balance = Fin 100\<rparr>]
             else Inl (Http 404)),
      payments_call =
        (\<lambda>a c. Inr [\<lparr>paging_token = ''67890'', op_type = ''payment'',
                       op_asset_type = Some ''credit_alphanum4'', op_asset_code = Some ''USDC'',
                       op_asset_issuer = Some ''GISSUER'', op_transaction_hash = ''tx_1'',
                       op_from = ''G_PAYER''\<rparr>]),
      getUsdcAsset = Inr ''GISSUER'',
      event_failure = (\<lambda>i. None)\<rparr>"

definition example_verify_env :: verify_env where
  "example_verify_env =
     \<lparr>contractId = ''CVERIFIER'',
      invokeVerifyContract =
        (\<lambda>k i h a. if k < 2 then Inl (Error ''network down'') else Inr ''ctx_3'')\<rparr>"

section \<open>The store\<close>

lemma ids_upd_row: "(\<And>q. payment_id (f q) = payment_id q) \<Longrightarrow> ids (upd_row i f s) = ids s"
  by (induction s) (auto simp: ids_def upd_row_def)

lemma map_id_upd_row:
  "(\<And>q. payment_id (f q) = payment_id q) \<Longrightarrow> map payment_id (upd_row i f s) = map payment_id s"
  by (induction s) (auto simp: upd_row_def)

lemma findUnique_upd_row:
  "(\<And>q. payment_id (f q) = payment_id q) \<Longrightarrow>
   findUnique (upd_row i f s) j = (if j = i then map_option f (findUnique s i) else findUnique s j)"
  by (induction s) (auto simp: findUnique_def upd_row_def)

lemma findUnique_SomeD: "findUnique s i = Some p \<Longrightarrow> p \<in> set s \<and> payment_id p = i"
  by (induction s) (auto simp: findUnique_def split: if_splits)

lemma findUnique_wf: "wf_store s \<Longrightarrow> p \<in> set s \<Longrightarrow> findUnique s (payment_id p) = Some p"
  by (induction s) (auto simp: findUnique_def wf_store_def)

lemma findUnique_None_iff: "findUnique s i = None \<longleftrightarrow> i \<notin> ids s"
  by (induction s) (auto simp: findUnique_def ids_def)

lemma set_insert_by_confirmed: "set (insert_by_confirmed p ps) = insert p (set ps)"
  by (induction ps) auto

lemma set_order_by_confirmed: "set (order_by_confirmed ps) = set ps"
  by (induction ps) (auto simp: set_insert_by_confirmed)

lemma length_insert_by_confirmed: "length (insert_by_confirmed p ps) = Suc (length ps)"
  by (induction ps) auto

lemma length_order_by_confirmed: "length (order_by_confirmed ps) = length ps"
  by (induction ps) (auto simp: length_insert_by_confirmed)

lemma distinct_insert_by_confirmed:
  "distinct (map payment_id (insert_by_confirmed p ps)) \<longleftrightarrow> distinct (map payment_id (p # ps))"
  by (induction ps) (auto simp: set_insert_by_confirmed)

lemma distinct_order_by_confirmed:
  "distinct (map payment_id (order_by_confirmed ps)) \<longleftrightarrow> distinct (map payment_id ps)"
  by (induction ps) (auto simp: distinct_insert_by_confirmed set_order_by_confirmed)

lemma prisma_take_subset: "prisma_take n xs = Inr ys \<Longrightarrow> set ys \<subseteq> set xs"
  by (auto simp: prisma_take_def split: jsnum.splits if_splits dest: in_set_takeD in_set_dropD)

lemma prisma_take_distinct:
  "prisma_take n xs = Inr ys \<Longrightarrow> distinct (map f xs) \<Longrightarrow> distinct (map f ys)"
  by (auto simp: prisma_take_def take_map[symmetric] drop_map[symmetric] simp del: take_map drop_map split: jsnum.splits if_splits)

lemma selection_subset:
  "getUnsweptPaidPayments s n = Inr sel \<Longrightarrow> set sel \<subseteq> {p \<in> set s. unswept_paid p}"
  by (auto simp: getUnsweptPaidPayments_def set_order_by_confirmed dest!: prisma_take_subset)

lemma selection_distinct:
  "getUnsweptPaidPayments s n = Inr sel \<Longrightarrow> wf_store s \<Longrightarrow> distinct (map payment_id sel)"
  unfolding getUnsweptPaidPayments_def wf_store_def
  by (erule prisma_take_distinct) (simp add: distinct_order_by_confirmed distinct_map_filter)

lemma in_ids: "p \<in> set s \<Longrightarrow> payment_id p \<in> ids s"
  by (simp add: ids_def)

lemma wf_store_Cons: "wf_store (a # s) \<longleftrightarrow> payment_id a \<notin> ids s \<and> wf_store s"
  by (simp add: wf_store_def ids_def)

lemma findUnique_Cons:
  "findUnique (a # s) j = (if payment_id a = j then Some a else findUnique s j)"
  by (simp add: findUnique_def)

lemma upd_row_same: "(\<And>q. f q = q) \<Longrightarrow> upd_row i f s = s"
  by (induction s) (auto simp: upd_row_def)

lemma upd_row_absent: "i \<notin> ids s \<Longrightarrow> upd_row i f s = s"
  by (induction s) (auto simp: upd_row_def ids_def)

lemma upd_row_cong: "(\<And>q. q \<in> set s \<Longrightarrow> f q = g q) \<Longrightarrow> upd_row i f s = upd_row i g s"
  by (induction s) (auto simp: upd_row_def)

lemma list_all2_upd_row:
  "(\<And>q. R q q) \<Longrightarrow> (\<And>q. R q (f q)) \<Longrightarrow> list_all2 R s (upd_row i f s)"
  by (induction s) (simp_all add: upd_row_def)

lemma swept_kept_refl: "list_all2 swept_kept s s"
  by (simp add: list_all2_refl swept_kept_def)

lemma swept_kept_trans:
  "list_all2 swept_kept s s' \<Longrightarrow> list_all2 swept_kept s' s'' \<Longrightarrow> list_all2 swept_kept s s''"
  using list_all2_trans[of swept_kept swept_kept swept_kept s s' s''] by (auto simp: swept_kept_def)

lemma settlement_kept_refl: "list_all2 settlement_kept s s"
  by (simp add: list_all2_refl settlement_kept_def)

lemma settlement_kept_trans:
  "list_all2 settlement_kept s s' \<Longrightarrow> list_all2 settlement_kept s' s'' \<Longrightarrow>
   list_all2 settlement_kept s s''"
  using list_all2_trans[of settlement_kept settlement_kept settlement_kept s s' s'']
  by (auto simp: settlement_kept_def)

lemma settlement_kept_swept: "list_all2 settlement_kept s s' \<Longrightarrow> list_all2 swept_kept s s'"
  by (erule list_all2_mono) (simp add: settlement_kept_def swept_kept_def)

lemma payment_update_rel:
  "payment_update s i f = Inr s' \<Longrightarrow> (\<And>q. R q q) \<Longrightarrow> (\<And>q. R q (f q)) \<Longrightarrow> list_all2 R s s'"
  by (auto simp: payment_update_def split: if_splits intro: list_all2_upd_row)

lemma swept_kept_ids: "list_all2 swept_kept s s' \<Longrightarrow> map payment_id s' = map payment_id s"
  by (induction rule: list_all2_induct) (simp_all add: swept_kept_def)

lemma swept_kept_find:
  "list_all2 swept_kept s s' \<Longrightarrow> findUnique s i = Some q \<Longrightarrow>
   \<exists>q'. findUnique s' i = Some q' \<and> (swept q \<longrightarrow> swept q')"
  by (induction arbitrary: q rule: list_all2_induct)
     (auto simp: findUnique_Cons swept_kept_def findUnique_def split: if_splits)

section \<open>One sweep run\<close>

lemmas sweep_unfold = sweep_payment_def Let_def skip_def skip_reason_def invalid_amount_def
  address_mismatch_def payment_update_def

lemma sweep_payment_ids: "map payment_id (db (sweep_payment env dry p st)) = map payment_id (db st)"
  by (simp add: sweep_unfold map_id_upd_row split: sum.splits prod.splits)

lemma sweep_loop_ids: "map payment_id (db (sweep_loop env dry ps st)) = map payment_id (db st)"
  by (induction ps arbitrary: st) (simp_all add: sweep_payment_ids)

lemma ids_map: "ids s = set (map payment_id s)"
  by (simp add: ids_def)

lemma sweep_payment_skipped:
  "payment_id p \<in> ids (db st) \<Longrightarrow>
   skipped (sweep_payment env dry p st) =
     skipped st @ (case skip_reason env dry p of None \<Rightarrow> [] | Some r \<Rightarrow> [(payment_id p, r)])"
  by (simp add: sweep_unfold split: sum.splits prod.splits)

lemma sweep_payment_count:
  "payment_id p \<in> ids (db st) \<Longrightarrow>
   addressesSwept (sweep_payment env dry p st) =
     addressesSwept st + (if skip_reason env dry p = None then 1 else 0)"
  by (simp add: sweep_unfold split: sum.splits prod.splits)

lemma sweep_payment_total:
  "payment_id p \<in> ids (db st) \<Longrightarrow>
   total_amount (sweep_payment env dry p st) =
     (if skip_reason env dry p = None then number_add env (total_amount st) (amount p)
      else total_amount st)"
  by (simp add: sweep_unfold split: sum.splits prod.splits)

lemma sweep_payment_dry:
  "db (sweep_payment env True p st) = db st \<and> submitted (sweep_payment env True p st) = submitted st
   \<and> txHashes (sweep_payment env True p st) = txHashes st"
  by (simp add: sweep_unfold split: sum.splits prod.splits)

lemma sweep_payment_submitted:
  "fst ` set (submitted (sweep_payment env dry p st)) \<subseteq> insert (payment_id p) (fst ` set (submitted st))"
  by (auto simp: sweep_unfold split: sum.splits prod.splits)

lemma sweep_payment_other:
  "j \<noteq> payment_id p \<Longrightarrow> findUnique (db (sweep_payment env dry p st)) j = findUnique (db st) j"
  by (simp add: sweep_unfold findUnique_upd_row split: sum.splits prod.splits)

lemma sweep_payment_ids_set: "ids (db (sweep_payment env dry p st)) = ids (db st)"
  by (simp add: ids_map sweep_payment_ids)

lemma sweep_loop_skipped:
  "payment_id ` set ps \<subseteq> ids (db st) \<Longrightarrow>
   skipped (sweep_loop env dry ps st) = skipped st @ skipped_of env dry ps"
proof (induction ps arbitrary: st)
  case Nil
  then show ?case by (simp add: skipped_of_def)
next
  case (Cons p ps)
  have "payment_id ` set ps \<subseteq> ids (db (sweep_payment env dry p st))"
    using Cons.prems by (simp add: sweep_payment_ids_set)
  then have "skipped (sweep_loop env dry ps (sweep_payment env dry p st)) =
      skipped (sweep_payment env dry p st) @ skipped_of env dry ps"
    by (rule Cons.IH)
  moreover have "payment_id p \<in> ids (db st)"
    using Cons.prems by simp
  ultimately show ?case
    by (cases "skip_reason env dry p") (simp_all add: sweep_payment_skipped skipped_of_def)
qed

lemma sweep_loop_count:
  "payment_id ` set ps \<subseteq> ids (db st) \<Longrightarrow>
   addressesSwept (sweep_loop env dry ps st) =
     addressesSwept st + length (filter (\<lambda>p. skip_reason env dry p = None) ps)"
proof (induction ps arbitrary: st)
  case Nil
  then show ?case by simp
next
  case (Cons p ps)
  have "payment_id ` set ps \<subseteq> ids (db (sweep_payment env dry p st))"
    using Cons.prems by (simp add: sweep_payment_ids_set)
  then have "addressesSwept (sweep_loop env dry ps (sweep_payment env dry p st)) =
      addressesSwept (sweep_payment env dry p st) + length (filter (\<lambda>p. skip_reason env dry p = None) ps)"
    by (rule Cons.IH)
  moreover have "payment_id p \<in> ids (db st)"
    using Cons.prems by simp
  ultimately show ?case
    by (simp add: sweep_payment_count)
qed

lemma sweep_loop_total:
  "payment_id ` set ps \<subseteq> ids (db st) \<Longrightarrow>
   total_amount (sweep_loop env dry ps st) =
     foldl (number_add env) (total_amount st)
       (map amount (filter (\<lambda>p. skip_reason env dry p = None) ps))"
proof (induction ps arbitrary: st)
  case Nil
  then show ?case by simp
next
  case (Cons p ps)
  let ?st = "sweep_payment env dry p st"
  have sub: "payment_id ` set ps \<subseteq> ids (db ?st)"
    using Cons.prems by (simp add: sweep_payment_ids_set)
  have p: "payment_id p \<in> ids (db st)"
    using Cons.prems by simp
  show ?case
    using Cons.IH[OF sub] sweep_payment_total[OF p, of env dry] by simp
qed

lemma sweep_loop_dry:
  "db (sweep_loop env True ps st) = db st \<and> submitted (sweep_loop env True ps st) = submitted st
   \<and> txHashes (sweep_loop env True ps st) = txHashes st"
  by (induction ps arbitrary: st) (simp_all add: sweep_payment_dry)

lemma sweep_loop_submitted:
  "fst ` set (submitted (sweep_loop env dry ps st)) \<subseteq> fst ` set (submitted st) \<union> payment_id ` set ps"
proof (induction ps arbitrary: st)
  case Nil
  then show ?case by simp
next
  case (Cons p ps)
  show ?case
    using Cons.IH[of "sweep_payment env dry p st"] sweep_payment_submitted[of env dry p st]
    by auto
qed

lemma sweep_loop_other:
  "j \<notin> payment_id ` set ps \<Longrightarrow> findUnique (db (sweep_loop env dry ps st)) j = findUnique (db st) j"
  by (induction ps arbitrary: st) (auto simp: sweep_payment_other)

lemma txHashes_sweep_payment: "set (txHashes st) \<subseteq> set (txHashes (sweep_payment env dry p st))"
  by (simp add: sweep_unfold subset_insertI split: sum.splits prod.splits)

lemma txHashes_sweep_loop: "set (txHashes st) \<subseteq> set (txHashes (sweep_loop env dry ps st))"
proof (induction ps arbitrary: st)
  case Nil
  then show ?case by simp
next
  case (Cons p ps)
  show ?case
    using Cons.IH[of "sweep_payment env dry p st"] txHashes_sweep_payment[of st env dry p]
    by auto
qed

lemma skip_reason_NoneD:
  assumes "skip_reason env dry p = None"
  shows "\<exists>kp. Number_isFinite (amount p) \<and> \<not> js_le (amount p) (Fin 0) \<and>
           regenerateKeypair env (merchantId p) (payment_id p) = Inr kp \<and>
           \<not> (truthy (stellar_address p) \<and> Some (publicKey kp) \<noteq> stellar_address p) \<and>
           (\<not> dry \<longrightarrow> (\<exists>hash txs. submitUsdcSweepTx env (secretKey kp) (vaultKeypair_publicKey env)
        (toFixed7 env (amount p)) = (Inr hash, txs)))"
proof -
  have na: "\<not> invalid_amount p"
    using assms by (simp add: skip_reason_def split: if_splits)
  obtain kp where kp: "regenerateKeypair env (merchantId p) (payment_id p) = Inr kp"
    using assms na
    by (cases "regenerateKeypair env (merchantId p) (payment_id p)") (simp_all add: skip_reason_def)
  have nm: "\<not> address_mismatch kp p"
    using assms na kp by (simp add: skip_reason_def split: if_splits)
  have "\<exists>hash txs. submitUsdcSweepTx env (secretKey kp) (vaultKeypair_publicKey env)
        (toFixed7 env (amount p)) = (Inr hash, txs)"
    if "\<not> dry"
  proof -
    obtain res txs where sub:
      "submitUsdcSweepTx env (secretKey kp) (vaultKeypair_publicKey env)
        (toFixed7 env (amount p)) = (res, txs)"
      by (cases "submitUsdcSweepTx env (secretKey kp) (vaultKeypair_publicKey env)
        (toFixed7 env (amount p))")
    have "\<exists>hash. res = Inr hash"
      using assms na kp nm sub that by (cases res) (simp_all add: skip_reason_def)
    then show ?thesis using sub by auto
  qed
  then show ?thesis
    using na kp nm by (auto simp: invalid_amount_def address_mismatch_def)
qed

lemma sweep_payment_marks:
  assumes "payment_id p \<in> ids (db st)" and "skip_reason env False p = None"
  shows "\<exists>hash q. findUnique (db (sweep_payment env False p st)) (payment_id p) =
            Some (sweep_mark (new_Date env (payment_id p)) hash q) \<and>
            findUnique (db st) (payment_id p) = Some q \<and>
            hash \<in> set (txHashes (sweep_payment env False p st))"
proof -
  obtain q where q: "findUnique (db st) (payment_id p) = Some q"
    using assms(1) findUnique_None_iff[of "db st" "payment_id p"]
    by (cases "findUnique (db st) (payment_id p)") simp_all
  from skip_reason_NoneD[OF assms(2)] obtain kp hash txs where
    h: "Number_isFinite (amount p)" "\<not> js_le (amount p) (Fin 0)"
       "regenerateKeypair env (merchantId p) (payment_id p) = Inr kp"
       "\<not> (truthy (stellar_address p) \<and> Some (publicKey kp) \<noteq> stellar_address p)"
       "submitUsdcSweepTx env (secretKey kp) (vaultKeypair_publicKey env)
        (toFixed7 env (amount p)) = (Inr hash, txs)"
    by blast
  have "sweep_payment env False p st =
      st\<lparr>submitted := submitted st @ map (Pair (payment_id p)) txs,
         db := upd_row (payment_id p) (sweep_mark (new_Date env (payment_id p)) hash) (db st),
         txHashes := txHashes st @ [hash],
         addressesSwept := addressesSwept st + 1,
         total_amount := number_add env (total_amount st) (amount p)\<rparr>"
  proof -
    have nm: "(truthy (stellar_address p) \<and> Some (publicKey kp) \<noteq> stellar_address p) = False"
      using h(4) by blast
    show ?thesis
      unfolding sweep_payment_def Let_def payment_update_def sweep_mark_def
      using h(1,2,3,5) assms(1) by (simp add: nm)
  qed
  then show ?thesis
    using q by (intro exI[of _ hash] exI[of _ q]) (simp add: findUnique_upd_row sweep_mark_def)
qed

lemma sweep_loop_marks:
  assumes "distinct (map payment_id ps)" and "p \<in> set ps"
    and "payment_id ` set ps \<subseteq> ids (db st)" and "skip_reason env False p = None"
  shows "\<exists>hash q. findUnique (db (sweep_loop env False ps st)) (payment_id p) =
            Some (sweep_mark (new_Date env (payment_id p)) hash q) \<and>
            findUnique (db st) (payment_id p) = Some q \<and>
            hash \<in> set (txHashes (sweep_loop env False ps st))"
  using assms
proof (induction ps arbitrary: st)
  case Nil
  then show ?case by simp
next
  case (Cons a ps)
  let ?st = "sweep_payment env False a st"
  show ?case
  proof (cases "p = a")
    case True
    have notin: "payment_id p \<notin> payment_id ` set ps"
      using Cons.prems(1) True by auto
    have "payment_id p \<in> ids (db st)"
      using Cons.prems(3) True by simp
    from sweep_payment_marks[OF this Cons.prems(4)] obtain hash q where
      h: "findUnique (db (sweep_payment env False p st)) (payment_id p) =
            Some (sweep_mark (new_Date env (payment_id p)) hash q)"
         "findUnique (db st) (payment_id p) = Some q"
         "hash \<in> set (txHashes (sweep_payment env False p st))"
      by blast
    have "hash \<in> set (txHashes (sweep_loop env False ps (sweep_payment env False p st)))"
      using h(3) txHashes_sweep_loop by blast
    then show ?thesis
      using h(1,2) True sweep_loop_other[OF notin, of env False ?st] by auto
  next
    case False
    then have pin: "p \<in> set ps" using Cons.prems(2) by simp
    have d: "distinct (map payment_id ps)" using Cons.prems(1) by simp
    have sub: "payment_id ` set ps \<subseteq> ids (db ?st)"
      using Cons.prems(3) by (simp add: sweep_payment_ids_set)
    have ne: "payment_id p \<noteq> payment_id a"
      using Cons.prems(1) pin by (metis distinct.simps(2) imageI list.simps(9) set_map)
    from Cons.IH[OF d pin sub Cons.prems(4)] show ?thesis
      by (simp add: sweep_payment_other[OF ne])
  qed
qed

lemma sweep_payment_kept: "list_all2 swept_kept (db st) (db (sweep_payment env dry p st))"
  by (auto simp: sweep_unfold swept_kept_refl swept_kept_def split: sum.splits prod.splits
           intro!: list_all2_upd_row)

lemma sweep_loop_kept: "list_all2 swept_kept (db st) (db (sweep_loop env dry ps st))"
  by (induction ps arbitrary: st) (auto simp: swept_kept_refl intro: swept_kept_trans sweep_payment_kept)

lemma sweep_run_kept:
  "sweepPaidPayments env options s = Inr r \<Longrightarrow> list_all2 swept_kept s (run_db r)"
  using sweep_loop_kept[of "sweep_init s" env "dryRun options"]
  by (auto simp: sweepPaidPayments_def sweep_finish_def sweep_init_def split: sum.splits)

section \<open>One tick of the monitor\<close>

lemma monitor_row_id [simp]: "payment_id (monitor_row env p q) = payment_id q"
  by (simp add: monitor_row_def Let_def split: option.splits prod.splits)

lemma tdb_catch_error [simp]: "tdb (catch_error e a st) = tdb st"
  by (simp add: catch_error_def)

lemma monitor_payment_tdb:
  "tdb (monitor_payment env p st) = upd_row (payment_id p) (monitor_row env p) (tdb st)"
proof (cases "observed env p")
  case None
  then have "tdb (monitor_payment env p st) = tdb st"
    by (auto simp: monitor_payment_def observed_def split: option.splits sum.splits if_splits)
  moreover have "\<And>q. monitor_row env p q = q"
    using None by (simp add: monitor_row_def)
  ultimately show ?thesis
    by (simp add: upd_row_same)
next
  case (Some ob)
  obtain received sc where o: "ob = (received, sc)" by (cases ob)
  from Some o obtain a balances records where
    a: "stellar_address p = Some a" "a \<noteq> []" "loadAccount env a = Inr balances"
       "payments_call env a (query_cursor p) = Inr records"
       "totalReceived env balances = Inr received"
       "scan_records env (last_paging_token p) records = Inr sc"
    by (auto simp: observed_def split: option.splits sum.splits if_splits)
  let ?new = "newStatus received (amount p)"
  let ?c1 = "?new \<noteq> None \<and> (?new \<noteq> Some (status p) \<or> truthy (latestTxHash sc))"
  let ?c2 = "truthy (latestPagingToken sc) \<and> latestPagingToken sc \<noteq> last_paging_token p"
  have obs: "observed env p = Some (received, sc)"
    using Some o by simp
  show ?thesis
  proof (cases "payment_id p \<in> ids (tdb st)")
    case True
    consider (status_hash) "?c1" "truthy (latestTxHash sc)"
      | (status_only) "?c1" "\<not> truthy (latestTxHash sc)"
      | (cursor) "\<not> ?c1" "?c2"
      | (unchanged) "\<not> ?c1" "\<not> ?c2"
      by blast
    then show ?thesis
    proof cases
      case status_hash
      have row: "monitor_row env p = (\<lambda>q. q\<lparr>status := the ?new,
                     last_paging_token := latestPagingToken sc,
                     transaction_hash := latestTxHash sc\<rparr>)"
        using status_hash obs by (intro ext) (simp add: monitor_row_def Let_def)
      show ?thesis
        unfolding row using a True status_hash
        by (auto simp add: monitor_payment_def Let_def payment_update_def split: option.splits)
    next
      case status_only
      have row: "monitor_row env p = (\<lambda>q. q\<lparr>status := the ?new,
                     last_paging_token := latestPagingToken sc\<rparr>)"
        using status_only obs by (intro ext) (simp add: monitor_row_def Let_def)
      show ?thesis
        unfolding row using a True status_only
        by (auto simp add: monitor_payment_def Let_def payment_update_def split: option.splits)
    next
      case cursor
      have row: "monitor_row env p = (\<lambda>q. q\<lparr>last_paging_token := latestPagingToken sc\<rparr>)"
        using cursor obs by (intro ext) (auto simp add: monitor_row_def Let_def)
      show ?thesis
        unfolding row using a True cursor
        by (auto simp add: monitor_payment_def Let_def payment_update_def)
    next
      case unchanged
      have row: "monitor_row env p = (\<lambda>q. q)"
        using unchanged obs by (intro ext) (auto simp add: monitor_row_def Let_def)
      show ?thesis
        unfolding row using a True unchanged
        by (auto simp add: monitor_payment_def Let_def payment_update_def upd_row_same)
    qed
  next
    case False
    then show ?thesis
      using a
      by (simp add: monitor_payment_def Let_def payment_update_def upd_row_absent)
  qed
qed

lemma apply_rows_Nil [simp]: "apply_rows F [] s = s"
  by (simp add: apply_rows_def)

lemma apply_rows_Cons [simp]:
  "apply_rows F (p # ps) s = apply_rows F ps (upd_row (payment_id p) (F p) s)"
  by (simp add: apply_rows_def)

lemma monitor_loop_tdb: "tdb (monitor_loop env ps st) = apply_rows (monitor_row env) ps (tdb st)"
  by (induction ps arbitrary: st) (simp_all add: monitor_payment_tdb)

lemma findUnique_apply_rows:
  assumes "wf_store ps" and "\<And>p q. payment_id (F p q) = payment_id q"
  shows "findUnique (apply_rows F ps s) j =
           (case findUnique ps j of
              None \<Rightarrow> findUnique s j
            | Some p \<Rightarrow> map_option (F p) (findUnique s j))"
  using assms(1)
proof (induction ps arbitrary: s)
  case Nil
  then show ?case by (simp add: findUnique_def)
next
  case (Cons a ps)
  have d: "wf_store ps" and na: "payment_id a \<notin> ids ps"
    using Cons.prems by (simp_all add: wf_store_Cons)
  have none: "findUnique ps (payment_id a) = None"
    using na by (simp add: findUnique_None_iff)
  have step: "findUnique (upd_row (payment_id a) (F a) s) j =
      (if j = payment_id a then map_option (F a) (findUnique s (payment_id a)) else findUnique s j)"
    by (rule findUnique_upd_row) (rule assms(2))
  have IH: "findUnique (apply_rows F ps (upd_row (payment_id a) (F a) s)) j =
           (case findUnique ps j of
              None \<Rightarrow> findUnique (upd_row (payment_id a) (F a) s) j
            | Some p \<Rightarrow> map_option (F p) (findUnique (upd_row (payment_id a) (F a) s) j))"
    by (rule Cons.IH[OF d])
  show ?case
  proof (cases "j = payment_id a")
    case True
    show ?thesis
      unfolding apply_rows_Cons IH step findUnique_Cons using True none by simp
  next
    case False
    then have "payment_id a \<noteq> j" by blast
    with False show ?thesis
      unfolding apply_rows_Cons IH step findUnique_Cons by simp
  qed
qed

lemma map_id_apply_rows:
  "(\<And>p q. payment_id (F p q) = payment_id q) \<Longrightarrow>
   map payment_id (apply_rows F ps s) = map payment_id s"
  by (induction ps arbitrary: s) (simp_all add: map_id_upd_row)

lemma findUnique_filter:
  "wf_store s \<Longrightarrow>
   findUnique (filter P s) j =
     (case findUnique s j of None \<Rightarrow> None | Some q \<Rightarrow> if P q then Some q else None)"
proof (induction s)
  case Nil
  then show ?case by (simp add: findUnique_def)
next
  case (Cons a s)
  then have wf: "wf_store s" and na: "payment_id a \<notin> ids s"
    by (simp_all add: wf_store_Cons)
  have "findUnique s (payment_id a) = None"
    using na by (simp add: findUnique_None_iff)
  then show ?case
    using Cons.IH[OF wf] by (cases "payment_id a = j") (auto simp: findUnique_Cons)
qed

lemma expire_row_id [simp]: "payment_id (expire_row now q) = payment_id q"
  by (simp add: expire_row_def)

lemma findUnique_map:
  "(\<And>q. payment_id (g q) = payment_id q) \<Longrightarrow> findUnique (map g s) j = map_option g (findUnique s j)"
  by (induction s) (auto simp: findUnique_def)

lemma tick_tdb:
  "tdb (runPaymentMonitorTick env now s) =
     apply_rows (monitor_row env) (filter (is_active now) (map (expire_row now) s)) (map (expire_row now) s)"
  by (simp add: runPaymentMonitorTick_def Let_def monitor_loop_tdb expire_overdue_def active_payments_def)

lemma tick_ids: "map payment_id (tdb (runPaymentMonitorTick env now s)) = map payment_id s"
  by (simp add: tick_tdb map_id_apply_rows comp_def)

lemma findUnique_tick:
  assumes "wf_store s"
  shows "findUnique (tdb (runPaymentMonitorTick env now s)) j = map_option (tick_row env now) (findUnique s j)"
proof -
  let ?s1 = "map (expire_row now) s"
  have wf1: "wf_store ?s1"
    using assms by (simp add: wf_store_def comp_def)
  then have d: "wf_store (filter (is_active now) ?s1)"
    unfolding wf_store_def by (rule distinct_map_filter)
  have f1: "findUnique ?s1 j = map_option (expire_row now) (findUnique s j)"
    by (simp add: findUnique_map)
  show ?thesis
    unfolding tick_tdb
    by (simp add: findUnique_apply_rows[OF d] findUnique_filter[OF wf1] f1 tick_row_def Let_def
          split: option.splits)
qed

lemma monitor_row_settlement:
  "swept (monitor_row env p q) = swept q \<and> swept_at (monitor_row env p q) = swept_at q \<and>
   sweep_tx_hash (monitor_row env p q) = sweep_tx_hash q"
  by (simp add: monitor_row_def Let_def split: option.splits prod.splits)

lemma expire_row_settlement:
  "swept (expire_row now q) = swept q \<and> swept_at (expire_row now q) = swept_at q \<and>
   sweep_tx_hash (expire_row now q) = sweep_tx_hash q"
  by (simp add: expire_row_def)

lemma apply_rows_swept_kept:
  "(\<And>p q. swept_kept q (F p q)) \<Longrightarrow> list_all2 swept_kept s (apply_rows F ps s)"
proof (induction ps arbitrary: s)
  case Nil
  then show ?case by (simp add: swept_kept_refl)
next
  case (Cons a ps)
  have "list_all2 swept_kept s (upd_row (payment_id a) (F a) s)"
    by (rule list_all2_upd_row) (simp_all add: Cons.prems, simp add: swept_kept_def)
  moreover have "list_all2 swept_kept (upd_row (payment_id a) (F a) s)
      (apply_rows F ps (upd_row (payment_id a) (F a) s))"
    by (rule Cons.IH) (rule Cons.prems)
  ultimately show ?case
    by (simp add: swept_kept_trans)
qed

lemma tick_swept_kept: "list_all2 swept_kept s (tdb (runPaymentMonitorTick env now s))"
proof -
  have "list_all2 swept_kept s (map (expire_row now) s)"
    by (simp add: list_all2_map2 list_all2_refl swept_kept_def expire_row_settlement)
  moreover have "list_all2 swept_kept (map (expire_row now) s) (tdb (runPaymentMonitorTick env now s))"
    unfolding tick_tdb
    by (rule apply_rows_swept_kept) (simp add: swept_kept_def monitor_row_settlement)
  ultimately show ?thesis
    by (rule swept_kept_trans)
qed

lemma Nil_less: "tok \<noteq> [] \<Longrightarrow> [] < (tok::string)"
  by (cases tok) simp_all

lemma token_newer_less: "token_newer tok latest \<Longrightarrow> latest < Some tok"
  by (cases latest) (auto simp: token_newer_def less_option_def Nil_less)

lemma scan_record_cursor:
  "scan_record env sc r = Inr sc' \<Longrightarrow>
   latestPagingToken sc' = latestPagingToken sc \<or>
   (latestPagingToken sc' = Some (paging_token r) \<and>
    latestPagingToken sc < Some (paging_token r))"
  by (auto simp: scan_record_def Let_def dest: token_newer_less split: sum.splits if_splits)

lemma scan_loop_cursor:
  "scan_loop env sc rs = Inr fin \<Longrightarrow>
   latestPagingToken fin = latestPagingToken sc \<or>
   (\<exists>r\<in>set rs. latestPagingToken fin = Some (paging_token r) \<and>
      latestPagingToken sc < Some (paging_token r))"
proof (induction rs arbitrary: sc)
  case Nil
  then show ?case by simp
next
  case (Cons r rs)
  from Cons.prems obtain sc' where
    step: "scan_record env sc r = Inr sc'" and rest: "scan_loop env sc' rs = Inr fin"
    by (auto split: sum.splits)
  have le: "latestPagingToken sc \<le> latestPagingToken sc'"
    using scan_record_cursor[OF step] by (auto simp: less_imp_le)
  from Cons.IH[OF rest] consider (same) "latestPagingToken fin = latestPagingToken sc'"
    | (later) x where "x \<in> set rs" "latestPagingToken fin = Some (paging_token x)"
        "latestPagingToken sc' < Some (paging_token x)"
    by blast
  then show ?case
  proof cases
    case same
    then show ?thesis
      using scan_record_cursor[OF step] by auto
  next
    case later
    have "latestPagingToken sc < Some (paging_token x)"
      using le later(3) by (rule le_less_trans)
    then show ?thesis
      using later(1,2) by auto
  qed
qed

lemma scan_records_cursor:
  "scan_records env c rs = Inr fin \<Longrightarrow>
   latestPagingToken fin = c \<or>
   (\<exists>r\<in>set rs. latestPagingToken fin = Some (paging_token r) \<and> c < Some (paging_token r))"
  using scan_loop_cursor[of env "\<lparr>latestPagingToken = c, latestTxHash = None, latestPayer = None\<rparr>" rs fin]
  by (simp add: scan_records_def)

lemma js_gt_irrefl [simp]: "\<not> js_gt a a"
  by (cases a) simp_all

lemma js_gt_asym: "js_gt a b \<Longrightarrow> \<not> js_gt b a"
  by (cases a; cases b) simp_all

lemma newStatus_confirmed: "js_eq r e \<Longrightarrow> newStatus r e = Some confirmed"
  by (auto simp: newStatus_def js_ge_def js_eq_def)

lemma newStatus_overpaid: "js_gt r e \<Longrightarrow> newStatus r e = Some overpaid"
  by (simp add: newStatus_def js_ge_def)

lemma newStatus_partially_paid:
  "js_gt r (Fin 0) \<Longrightarrow> js_gt e r \<Longrightarrow> newStatus r e = Some partially_paid"
  by (auto simp: newStatus_def js_ge_def js_eq_def dest: js_gt_asym)

lemma observedD:
  assumes "observed env p = Some (received, sc)"
  shows "\<exists>a balances records. stellar_address p = Some a \<and> a \<noteq> [] \<and>
           loadAccount env a = Inr balances \<and>
           payments_call env a (query_cursor p) = Inr records \<and>
           totalReceived env balances = Inr received \<and>
           scan_records env (last_paging_token p) records = Inr sc"
  using assms by (auto simp: observed_def split: option.splits sum.splits if_splits)

lemma observedI:
  "stellar_address p = Some a \<Longrightarrow> a \<noteq> [] \<Longrightarrow> loadAccount env a = Inr balances \<Longrightarrow>
   totalReceived env balances = Inr received \<Longrightarrow>
   payments_call env a (query_cursor p) = Inr records \<Longrightarrow>
   scan_records env (last_paging_token p) records = Inr sc \<Longrightarrow>
   observed env p = Some (received, sc)"
  by (simp add: observed_def)

lemma monitor_row_status:
  assumes "observed env p = Some (received, sc)"
    and "newStatus received (amount p) = Some st"
  shows "status (monitor_row env p p) = st"
  using assms by (simp add: monitor_row_def Let_def)

lemma monitor_row_cursor:
  "last_paging_token (monitor_row env p p) = last_paging_token p \<or>
   (\<exists>a records r. stellar_address p = Some a \<and>
      payments_call env a (query_cursor p) = Inr records \<and> r \<in> set records \<and>
      last_paging_token (monitor_row env p p) = Some (paging_token r) \<and>
      last_paging_token p < Some (paging_token r))"
proof (cases "observed env p")
  case None
  then show ?thesis by (simp add: monitor_row_def)
next
  case (Some ob)
  obtain received sc where ob: "ob = (received, sc)" by (cases ob)
  from observedD[OF Some[unfolded ob]] obtain a balances records where
    a: "stellar_address p = Some a" "payments_call env a (query_cursor p) = Inr records"
       "scan_records env (last_paging_token p) records = Inr sc"
    by blast
  have row: "last_paging_token (monitor_row env p p) = last_paging_token p \<or>
      last_paging_token (monitor_row env p p) = latestPagingToken sc"
    using Some ob by (simp add: monitor_row_def Let_def)
  from scan_records_cursor[OF a(3)]
  have "latestPagingToken sc = last_paging_token p \<or>
      (\<exists>r\<in>set records. latestPagingToken sc = Some (paging_token r) \<and>
         last_paging_token p < Some (paging_token r))"
    by simp
  with row a(1,2) show ?thesis
    by auto
qed

lemma active_not_expired: "is_active now (expire_row now q) \<Longrightarrow> expire_row now q = q"
  by (auto simp: is_active_def expire_row_def split: if_splits)

lemma tick_row_active:
  "is_active now q \<Longrightarrow> tick_row env now q = monitor_row env q q"
  by (auto simp: tick_row_def Let_def is_active_def expire_row_def)

lemma tick_row_overdue:
  "status q \<in> {pending, partially_paid} \<Longrightarrow> expiration q \<le> now \<Longrightarrow>
   tick_row env now q = q\<lparr>status := expired\<rparr>"
  by (auto simp: tick_row_def Let_def is_active_def expire_row_def)

lemma tick_row_cursor:
  "last_paging_token (tick_row env now q) = last_paging_token q \<or>
   (\<exists>a records r. stellar_address q = Some a \<and>
      payments_call env a (query_cursor q) = Inr records \<and> r \<in> set records \<and>
      last_paging_token (tick_row env now q) = Some (paging_token r) \<and>
      last_paging_token q < Some (paging_token r))"
proof (cases "is_active now (expire_row now q)")
  case True
  then have "expire_row now q = q" by (rule active_not_expired)
  then have "tick_row env now q = monitor_row env q q"
    using True by (simp add: tick_row_def)
  then show ?thesis
    using monitor_row_cursor[of env q] by simp
next
  case False
  then have "tick_row env now q = expire_row now q"
    by (simp add: tick_row_def)
  then show ?thesis
    by (simp add: expire_row_def)
qed

lemma monitor_payment_ids: "ids (tdb (monitor_payment env p st)) = ids (tdb st)"
  by (simp add: monitor_payment_tdb ids_upd_row)

lemma catch_error_logs [simp]:
  "verifications (catch_error e a st) = verifications st"
  "events (catch_error e a st) = events st"
  by (simp_all add: catch_error_def)

lemma monitor_payment_grows:
  "\<exists>vs es. verifications (monitor_payment env p st) = verifications st @ vs \<and>
           events (monitor_payment env p st) = events st @ es"
  by (simp add: monitor_payment_def Let_def split: option.splits sum.splits)

lemma monitor_loop_grows:
  "\<exists>vs es. verifications (monitor_loop env ps st) = verifications st @ vs \<and>
           events (monitor_loop env ps st) = events st @ es"
proof (induction ps arbitrary: st)
  case Nil
  then show ?case by simp
next
  case (Cons p ps)
  from monitor_payment_grows[of env p st] obtain vs es where
    1: "verifications (monitor_payment env p st) = verifications st @ vs"
       "events (monitor_payment env p st) = events st @ es"
    by blast
  from Cons.IH[of "monitor_payment env p st"] obtain vs' es' where
    2: "verifications (monitor_loop env ps (monitor_payment env p st)) =
          verifications (monitor_payment env p st) @ vs'"
       "events (monitor_loop env ps (monitor_payment env p st)) =
          events (monitor_payment env p st) @ es'"
    by blast
  show ?case
    using 1 2 by simp
qed

lemma monitor_payment_settles:
  assumes obs: "observed env p = Some (received, sc)"
    and new: "newStatus received (amount p) = Some st'" "st' = confirmed \<or> st' = overpaid"
    and hash: "truthy (latestTxHash sc)"
    and row: "findUnique (tdb st) (payment_id p) = Some q"
  shows "verifications (monitor_payment env p st) =
           verifications st @ [(payment_id p, the (latestTxHash sc), received)]"
    and "event_failure env (payment_id p) = None \<Longrightarrow>
         events (monitor_payment env p st) = events st @ [monitor_row env p q]"
proof -
  from observedD[OF obs] obtain a balances records where
    a: "stellar_address p = Some a" "a \<noteq> []" "loadAccount env a = Inr balances"
       "payments_call env a (query_cursor p) = Inr records"
       "totalReceived env balances = Inr received"
       "scan_records env (last_paging_token p) records = Inr sc"
    by blast
  have inn: "payment_id p \<in> ids (tdb st)"
    using row findUnique_None_iff[of "tdb st" "payment_id p"] by simp
  have mrow: "monitor_row env p = (\<lambda>q. q\<lparr>status := st',
                     last_paging_token := latestPagingToken sc,
                     transaction_hash := latestTxHash sc\<rparr>)"
    using obs new hash by (intro ext) (simp add: monitor_row_def Let_def)
  show "verifications (monitor_payment env p st) =
           verifications st @ [(payment_id p, the (latestTxHash sc), received)]"
    using a new hash inn
    by (auto simp add: monitor_payment_def Let_def payment_update_def split: option.splits)
  show "events (monitor_payment env p st) = events st @ [monitor_row env p q]"
    if "event_failure env (payment_id p) = None"
    unfolding mrow using a new hash inn row that
    by (auto simp add: monitor_payment_def Let_def payment_update_def findUnique_upd_row
        split: option.splits)
qed

lemma monitor_loop_settles:
  assumes "wf_store ps" and "p \<in> set ps"
    and "\<forall>q\<in>set ps. findUnique (tdb st) (payment_id q) = Some q"
    and obs: "observed env p = Some (received, sc)"
    and new: "newStatus received (amount p) = Some st'" "st' = confirmed \<or> st' = overpaid"
    and hash: "truthy (latestTxHash sc)"
  shows "(payment_id p, the (latestTxHash sc), received) \<in> set (verifications (monitor_loop env ps st)) \<and>
         (event_failure env (payment_id p) = None \<longrightarrow>
            monitor_row env p p \<in> set (events (monitor_loop env ps st)))"
  using assms(1-3)
proof (induction ps arbitrary: st)
  case Nil
  then show ?case using assms(2) by simp
next
  case (Cons a ps)
  let ?st = "monitor_payment env a st"
  have wf: "wf_store ps" and na: "payment_id a \<notin> ids ps"
    using Cons.prems(1) by (simp_all add: wf_store_Cons)
  from monitor_loop_grows[of env ps ?st] obtain vs es where
    g: "verifications (monitor_loop env ps ?st) = verifications ?st @ vs"
       "events (monitor_loop env ps ?st) = events ?st @ es"
    by blast
  show ?case
  proof (cases "p = a")
    case True
    have row: "findUnique (tdb st) (payment_id p) = Some p"
      using Cons.prems(3) True by simp
    show ?thesis
      using monitor_payment_settles[OF obs new hash row] g True by simp
  next
    case False
    then have pin: "p \<in> set ps"
      using Cons.prems(2) by simp
    have inv: "\<forall>q\<in>set ps. findUnique (tdb ?st) (payment_id q) = Some q"
    proof
      fix q assume q: "q \<in> set ps"
      then have "payment_id q \<noteq> payment_id a"
        using na in_ids[of q ps] by metis
      then show "findUnique (tdb ?st) (payment_id q) = Some q"
        using Cons.prems(3) q by (simp add: monitor_payment_tdb findUnique_upd_row)
    qed
    from Cons.IH[OF wf pin inv] show ?thesis
      by simp
  qed
qed

lemma is_usdc_payment_returns:
  "getUsdcAsset env = Inr issuer \<Longrightarrow>
   is_usdc_payment env r =
     Inr (op_type r = ''payment'' \<and> op_asset_type r = Some ''credit_alphanum4'' \<and>
          op_asset_code r = Some ''USDC'' \<and> op_asset_issuer r = Some issuer)"
  by (auto simp: is_usdc_payment_def)

lemma usdcBalanceRecord_returns:
  "getUsdcAsset env = Inr issuer \<Longrightarrow> \<exists>b. usdcBalanceRecord env balances = Inr b"
  by (induction balances) simp_all

lemma totalReceived_returns:
  "getUsdcAsset env = Inr issuer \<Longrightarrow> \<exists>received. totalReceived env balances = Inr received"
  using usdcBalanceRecord_returns[of env issuer balances]
  by (auto simp: totalReceived_def split: option.splits)

lemma scan_record_returns:
  "getUsdcAsset env = Inr issuer \<Longrightarrow> \<exists>sc'. scan_record env sc r = Inr sc'"
  by (simp add: scan_record_def Let_def is_usdc_payment_returns)

lemma scan_loop_returns:
  assumes "getUsdcAsset env = Inr issuer"
  shows "\<exists>fin. scan_loop env sc rs = Inr fin"
proof (induction rs arbitrary: sc)
  case Nil
  then show ?case by simp
next
  case (Cons r rs)
  from scan_record_returns[OF assms, of sc r] obtain sc' where "scan_record env sc r = Inr sc'"
    by blast
  then show ?case
    using Cons.IH[of sc'] by simp
qed

lemma scan_records_returns:
  "getUsdcAsset env = Inr issuer \<Longrightarrow> \<exists>sc. scan_records env c rs = Inr sc"
  unfolding scan_records_def by (rule scan_loop_returns)

lemma scan_record_hash_kept:
  "scan_record env sc r = Inr sc' \<Longrightarrow> truthy (latestTxHash sc) \<Longrightarrow>
   latestTxHash sc' = latestTxHash sc"
  by (auto simp: scan_record_def Let_def split: sum.splits if_splits)

lemma scan_loop_hash_kept:
  "scan_loop env sc rs = Inr fin \<Longrightarrow> truthy (latestTxHash sc) \<Longrightarrow>
   latestTxHash fin = latestTxHash sc"
proof (induction rs arbitrary: sc)
  case Nil
  then show ?case by simp
next
  case (Cons r rs)
  from Cons.prems(1) obtain sc' where
    step: "scan_record env sc r = Inr sc'" and rest: "scan_loop env sc' rs = Inr fin"
    by (auto split: sum.splits)
  have same: "latestTxHash sc' = latestTxHash sc"
    using step Cons.prems(2) by (rule scan_record_hash_kept)
  then have "truthy (latestTxHash sc')"
    using Cons.prems(2) by simp
  from Cons.IH[OF rest this] same show ?case
    by simp
qed

lemma scan_record_hash_first:
  assumes "getUsdcAsset env = Inr issuer" and "scan_record env sc r = Inr sc'"
    and "\<not> truthy (latestTxHash sc)"
  shows "if expected_transfer issuer r then latestTxHash sc' = Some (op_transaction_hash r)
         else \<not> truthy (latestTxHash sc')"
  using assms(2,3)
  by (auto simp: scan_record_def Let_def is_usdc_payment_returns[OF assms(1)] expected_transfer_def
      split: if_splits)

lemma scan_loop_hash_first:
  assumes "getUsdcAsset env = Inr issuer"
  shows "scan_loop env sc rs = Inr fin \<Longrightarrow> \<not> truthy (latestTxHash sc) \<Longrightarrow>
         find (expected_transfer issuer) rs = Some r \<Longrightarrow>
         latestTxHash fin = Some (op_transaction_hash r)"
proof (induction rs arbitrary: sc)
  case Nil
  then show ?case by simp
next
  case (Cons x rs)
  from Cons.prems(1) obtain sc' where
    step: "scan_record env sc x = Inr sc'" and rest: "scan_loop env sc' rs = Inr fin"
    by (auto split: sum.splits)
  note first = scan_record_hash_first[OF assms step Cons.prems(2)]
  show ?case
  proof (cases "expected_transfer issuer x")
    case True
    then have r: "r = x"
      using Cons.prems(3) by simp
    have h: "latestTxHash sc' = Some (op_transaction_hash x)"
      using first True by simp
    then have "truthy (latestTxHash sc')"
      using True by (simp add: expected_transfer_def)
    from scan_loop_hash_kept[OF rest this] h r show ?thesis
      by simp
  next
    case False
    then have "find (expected_transfer issuer) rs = Some r"
      using Cons.prems(3) by simp
    moreover have "\<not> truthy (latestTxHash sc')"
      using first False by simp
    ultimately show ?thesis
      using Cons.IH[OF rest] by blast
  qed
qed

lemma scan_records_hash:
  assumes "getUsdcAsset env = Inr issuer" and "scan_records env c rs = Inr sc"
    and "find (expected_transfer issuer) rs = Some r"
  shows "latestTxHash sc = Some (op_transaction_hash r)" and "truthy (latestTxHash sc)"
proof -
  show h: "latestTxHash sc = Some (op_transaction_hash r)"
    using scan_loop_hash_first[OF assms(1) assms(2)[unfolded scan_records_def] _ assms(3)]
    by simp
  have "expected_transfer issuer r"
    using assms(3) by (auto simp: find_Some_iff)
  then show "truthy (latestTxHash sc)"
    using h by (simp add: expected_transfer_def)
qed

lemma tick_row_transition:
  assumes "status (tick_row env now p) = confirmed \<or> status (tick_row env now p) = overpaid"
    and "status (tick_row env now p) \<noteq> status p"
  shows "is_active now p" and "tick_row env now p = monitor_row env p p"
    and "\<exists>received sc. observed env p = Some (received, sc) \<and>
           newStatus received (amount p) = Some (status (tick_row env now p))"
proof -
  have act1: "is_active now (expire_row now p)"
  proof (rule ccontr)
    assume "\<not> is_active now (expire_row now p)"
    then have "tick_row env now p = expire_row now p"
      by (simp add: tick_row_def)
    then show False
      using assms by (auto simp: expire_row_def split: if_splits)
  qed
  then have e: "expire_row now p = p"
    by (rule active_not_expired)
  then show act: "is_active now p"
    using act1 by simp
  then show t: "tick_row env now p = monitor_row env p p"
    by (rule tick_row_active)
  show "\<exists>received sc. observed env p = Some (received, sc) \<and>
           newStatus received (amount p) = Some (status (tick_row env now p))"
  proof (cases "observed env p")
    case None
    then have "monitor_row env p p = p"
      by (simp add: monitor_row_def)
    then show ?thesis
      using assms(2) t by simp
  next
    case (Some ob)
    obtain received sc where ob: "ob = (received, sc)" by (cases ob)
    have obs: "observed env p = Some (received, sc)"
      using Some ob by simp
    have "newStatus received (amount p) = Some (status (monitor_row env p p))"
      using assms(2) unfolding t
      by (auto simp: monitor_row_def obs Let_def split: if_splits)
    then show ?thesis
      using obs t by simp
  qed
qed


section \<open>One verification\<close>

lemmas verify_loop_at = verify_loop.simps[of _ _ _ _ 0] verify_loop.simps[of _ _ _ _ "Suc 0"]
  verify_loop.simps[of _ _ _ _ "Suc (Suc 0)"]

lemma verify_payment_unconfigured:
  "contractId env = [] \<Longrightarrow>
   verify_payment env paymentId txHash amt s =
     (Inr False, \<lparr>vdb = s, invocations = 0, delays = [], manual_intervention = []\<rparr>)"
  by (simp add: verify_payment_def)

lemma verify_payment_paths:
  assumes "paymentId \<in> ids s" and "contractId env \<noteq> []"
  shows "verify_payment env paymentId txHash amt s =
     (case invokeVerifyContract env 0 paymentId txHash amt of
        Inr h \<Rightarrow>
          (Inr True, \<lparr>vdb = upd_row paymentId (mark_verified h) s, invocations = 1,
                      delays = [], manual_intervention = []\<rparr>)
      | Inl e0 \<Rightarrow>
          (case invokeVerifyContract env 1 paymentId txHash amt of
             Inr h \<Rightarrow>
               (Inr True, \<lparr>vdb = upd_row paymentId (mark_verified h) s, invocations = 2,
                           delays = [1000], manual_intervention = []\<rparr>)
           | Inl e1 \<Rightarrow>
               (case invokeVerifyContract env 2 paymentId txHash amt of
                  Inr h \<Rightarrow>
                    (Inr True, \<lparr>vdb = upd_row paymentId (mark_verified h) s, invocations = 3,
                                delays = [1000, 2000], manual_intervention = []\<rparr>)
                | Inl e2 \<Rightarrow>
                    (Inr False,
                     \<lparr>vdb = upd_row paymentId (mark_failed (errorMessage e2)) s, invocations = 3,
                      delays = [1000, 2000],
                      manual_intervention = [(paymentId, errorMessage e2)]\<rparr>))))"
  using assms
  by (simp add: verify_payment_def verify_loop_at MAX_RETRIES_def baseDelay_def verify_attempt_def
      payment_update_def mark_verified_def[abs_def] mark_failed_def[abs_def] Let_def
      numeral_2_eq_2 numeral_3_eq_3
      split: sum.splits)

lemma verify_attempt_kept:
  "verify_attempt env paymentId txHash amt st = Inr s' \<Longrightarrow> list_all2 settlement_kept (vdb st) s'"
  unfolding verify_attempt_def
  by (auto split: sum.splits elim!: payment_update_rel simp: settlement_kept_def)

lemma verify_loop_kept:
  "list_all2 settlement_kept (vdb st) (vdb (snd (verify_loop env paymentId txHash amt attempt st)))"
proof (induction env paymentId txHash amt attempt st rule: verify_loop.induct)
  case (1 env paymentId txHash amt attempt st)
  show ?case
  proof (cases "attempt < MAX_RETRIES")
    case False
    then show ?thesis
      by (subst verify_loop.simps) (simp add: settlement_kept_refl)
  next
    case True
    show ?thesis
    proof (cases "verify_attempt env paymentId txHash amt st")
      case (Inr s')
      then show ?thesis
        using True verify_attempt_kept[OF Inr]
        by (subst verify_loop.simps) simp
    next
      case (Inl error)
      let ?st1 = "st\<lparr>invocations := invocations st + 1\<rparr>"
      show ?thesis
      proof (cases "attempt + 1 \<ge> MAX_RETRIES")
        case last: True
        show ?thesis
        proof (cases "payment_update (vdb ?st1) paymentId
                        (\<lambda>q. q\<lparr>verification_error := Some (errorMessage error)\<rparr>)")
          case l: (Inl e)
          then show ?thesis
            using True Inl last
            by (subst verify_loop.simps) (simp add: Let_def settlement_kept_refl)
        next
          case r: (Inr s')
          have "list_all2 settlement_kept (vdb ?st1) s'"
            using r by (rule payment_update_rel) (simp_all add: settlement_kept_def)
          then show ?thesis
            using True Inl last r
            by (subst verify_loop.simps) (simp add: Let_def)
        qed
      next
        case more: False
        let ?st2 = "?st1\<lparr>delays := delays ?st1 @ [baseDelay * 2 ^ (attempt + 1 - 1)]\<rparr>"
        have "list_all2 settlement_kept (vdb ?st2)
            (vdb (snd (verify_loop env paymentId txHash amt (attempt + 1) ?st2)))"
          using "1.IH"[OF True Inl refl more] .
        then show ?thesis
          using True Inl more
          by (subst verify_loop.simps) (simp add: Let_def)
      qed
    qed
  qed
qed

lemma verify_payment_kept:
  "list_all2 settlement_kept s (vdb (snd (verify_payment env paymentId txHash amt s)))"
  using verify_loop_kept[of "\<lparr>vdb = s, invocations = 0, delays = [], manual_intervention = []\<rparr>"
      env paymentId txHash amt 0]
  by (simp add: verify_payment_def Let_def settlement_kept_refl)

section \<open>Histories\<close>

lemma apply_operation_kept: "list_all2 swept_kept s (apply_operation op s)"
proof (cases op)
  case (Sweep env options)
  then show ?thesis
    by (cases "sweepPaidPayments env options s") (simp_all add: swept_kept_refl sweep_run_kept)
next
  case (Tick env now)
  then show ?thesis by (simp add: tick_swept_kept)
next
  case (Verify env paymentId txHash amt)
  then show ?thesis
    by (simp add: verify_payment_kept settlement_kept_swept)
qed

lemma apply_operations_kept: "list_all2 swept_kept s (apply_operations ops s)"
proof (induction ops arbitrary: s)
  case Nil
  then show ?case by (simp add: swept_kept_refl)
next
  case (Cons op ops)
  show ?case
    using apply_operation_kept[of s op] Cons.IH[of "apply_operation op s"]
    by (simp add: swept_kept_trans)
qed

section \<open>Selection and cap of a sweep run\<close>

lemma js_le_zero: "Number_isFinite a \<Longrightarrow> js_le a (Fin 0) \<longleftrightarrow> \<not> js_gt a (Fin 0)"
  by (cases a) (auto simp: js_le_def js_ge_def js_eq_def)

lemma skip_reason_dry: "skip_reason env True p = None \<longleftrightarrow> would_sweep env p"
  by (cases "Number_isFinite (amount p)")
     (auto simp: skip_reason_def would_sweep_def invalid_amount_def js_le_zero split: sum.splits)

lemma parseInt_200: "parseInt ''200'' = Fin 200"
  by (simp add: parseInt_def is_ws_def is_digit_def Let_def)

lemma batch_limit_default: "\<not> truthy (SWEEP_BATCH_LIMIT env) \<Longrightarrow> batch_limit_setting env = Fin 200"
  by (cases "SWEEP_BATCH_LIMIT env") (simp_all add: batch_limit_setting_def parseInt_200)

lemma prisma_take_all:
  assumes "prisma_take n xs = Inr ys" and "js_ge n (Fin (of_nat (length xs)))"
  shows "ys = xs"
proof (cases n)
  case (Fin q)
  have q: "of_nat (length xs) \<le> q"
    using assms(2) Fin by (auto simp: js_ge_def js_eq_def)
  then have nn: "0 \<le> q"
    by (rule order_trans[rotated]) simp
  have int: "of_int \<lfloor>q\<rfloor> = q"
    using assms(1) Fin by (simp add: prisma_take_def split: if_splits)
  have "int (length xs) \<le> \<lfloor>q\<rfloor>"
    using q by (simp add: le_floor_iff)
  then have "length xs \<le> nat \<lfloor>q\<rfloor>"
    by linarith
  then show ?thesis
    using assms(1) Fin nn int by (simp add: prisma_take_def)
qed (use assms in \<open>simp_all add: prisma_take_def\<close>)

lemmas example_defs = example_store_def example_payment_def example_sweep_env_def example_options_def

lemmas selection_defs = getUnsweptPaidPayments_def unswept_paid_def prisma_take_def

lemma example_selection:
  "getUnsweptPaidPayments example_store (Fin 200) =
     Inr [example_payment,
          example_payment\<lparr>payment_id := ''p2'', stellar_address := Some ''Gp2'', amount := NaN,
                       confirmed_at := Some 20\<rparr>,
          example_payment\<lparr>payment_id := ''p3'', stellar_address := Some ''Gp3'', amount := Fin 50,
                       status := overpaid, confirmed_at := Some 30\<rparr>]"
  by (simp add: selection_defs example_defs)

lemmas run_defs = sweepPaidPayments_def sweep_limit_def batch_limit_setting_def parseInt_200
  sweep_finish_def sweep_init_def sweep_payment_def submitUsdcSweepTx_def payment_update_def
  upd_row_def ids_def skip_def js_le_def js_ge_def js_eq_def Let_def

lemma sweep_run_unfold:
  "getUnsweptPaidPayments s (sweep_limit env options) = Inr sel \<Longrightarrow>
   sweepPaidPayments env options s =
     Inr (sweep_finish env (sweep_loop env (dryRun options) sel (sweep_init s)))"
  by (simp add: sweepPaidPayments_def)

lemma sweep_run_selD:
  "sweepPaidPayments env options s = Inr r \<Longrightarrow>
   \<exists>sel. getUnsweptPaidPayments s (sweep_limit env options) = Inr sel \<and>
         r = sweep_finish env (sweep_loop env (dryRun options) sel (sweep_init s))"
  by (auto simp: sweepPaidPayments_def split: sum.splits)

lemma selection_ids:
  "getUnsweptPaidPayments s n = Inr sel \<Longrightarrow> payment_id ` set sel \<subseteq> ids (db (sweep_init s))"
  using selection_subset[of s n sel] by (auto simp: sweep_init_def ids_def)

lemma skip_reason_kinds:
  "invalid_amount p \<Longrightarrow> skip_reason env dry p = Some ''Invalid amount''"
  "\<not> invalid_amount p \<Longrightarrow> regenerateKeypair env (merchantId p) (payment_id p) = Inl e \<Longrightarrow>
     skip_reason env dry p = Some (err_msg e)"
  "\<not> invalid_amount p \<Longrightarrow> regenerateKeypair env (merchantId p) (payment_id p) = Inr kp \<Longrightarrow>
     address_mismatch kp p \<Longrightarrow> skip_reason env dry p = Some ''Derived address mismatch''"
  "\<not> invalid_amount p \<Longrightarrow> regenerateKeypair env (merchantId p) (payment_id p) = Inr kp \<Longrightarrow>
     \<not> address_mismatch kp p \<Longrightarrow>
     fst (submitUsdcSweepTx env (secretKey kp) (vaultKeypair_publicKey env)
        (toFixed7 env (amount p))) = Inl e \<Longrightarrow>
     skip_reason env False p = Some (err_msg e)"
  by (simp_all add: skip_reason_def)

lemma sweep_payment_no_submit:
  "\<not> would_sweep env p \<Longrightarrow> submitted (sweep_payment env dry p st) = submitted st"
  by (cases "Number_isFinite (amount p)")
     (auto simp: sweep_payment_def Let_def skip_def would_sweep_def address_mismatch_def js_le_zero
           split: sum.splits)

lemma sweep_loop_submitted_valid:
  "i \<in> fst ` set (submitted (sweep_loop env dry ps st)) \<Longrightarrow>
   i \<in> fst ` set (submitted st) \<or> (\<exists>p\<in>set ps. would_sweep env p \<and> payment_id p = i)"
proof (induction ps arbitrary: st)
  case Nil
  then show ?case by simp
next
  case (Cons a ps)
  let ?st = "sweep_payment env dry a st"
  from Cons.IH[of ?st] Cons.prems
  consider (here) "i \<in> fst ` set (submitted ?st)"
    | (later) "\<exists>p\<in>set ps. would_sweep env p \<and> payment_id p = i"
    by auto
  then show ?case
  proof cases
    case here
    show ?thesis
    proof (cases "would_sweep env a")
      case True
      have "i = payment_id a \<or> i \<in> fst ` set (submitted st)"
        using here sweep_payment_submitted[of env dry a st] by blast
      then show ?thesis
        using True by auto
    next
      case False
      then show ?thesis
        using here by (simp add: sweep_payment_no_submit)
    qed
  next
    case later
    then show ?thesis by auto
  qed
qed

lemma wf_store_inj: "wf_store s \<Longrightarrow> p \<in> set s \<Longrightarrow> q \<in> set s \<Longrightarrow> payment_id p = payment_id q \<Longrightarrow> p = q"
  unfolding wf_store_def distinct_map by (meson inj_onD)

lemma swept_kept_wf: "list_all2 swept_kept s s' \<Longrightarrow> wf_store s \<Longrightarrow> wf_store s'"
  by (simp add: wf_store_def swept_kept_ids)

lemma selected_unswept:
  "getUnsweptPaidPayments s n = Inr sel \<Longrightarrow> p \<in> set sel \<Longrightarrow> p \<in> set s \<and> swept p = False"
  using selection_subset[of s n sel] by (auto simp: unswept_paid_def)

lemma swept_not_submitted:
  assumes wf: "wf_store s" and row: "findUnique s i = Some q" and sw: "swept q"
    and run: "sweepPaidPayments env options s = Inr r"
  shows "i \<notin> fst ` set (run_submitted r)"
proof
  assume inn: "i \<in> fst ` set (run_submitted r)"
  from sweep_run_selD[OF run] obtain sel where
    sel: "getUnsweptPaidPayments s (sweep_limit env options) = Inr sel"
    and r: "r = sweep_finish env (sweep_loop env (dryRun options) sel (sweep_init s))"
    by blast
  have "i \<in> fst ` set (submitted (sweep_loop env (dryRun options) sel (sweep_init s)))"
    using inn by (simp add: r sweep_finish_def)
  then have "i \<in> fst ` set (submitted (sweep_init s)) \<or>
      (\<exists>p\<in>set sel. would_sweep env p \<and> payment_id p = i)"
    by (rule sweep_loop_submitted_valid)
  then obtain p2 where p2: "p2 \<in> set sel" "payment_id p2 = i"
    by (auto simp: sweep_init_def)
  have u: "p2 \<in> set s" "swept p2 = False"
    using selected_unswept[OF sel p2(1)] by simp_all
  have "findUnique s (payment_id p2) = Some p2"
    using wf u(1) by (rule findUnique_wf)
  then have "p2 = q"
    using row p2(2) by simp
  then show False
    using sw u(2) by simp
qed

lemma example_limit: "sweep_limit example_sweep_env example_options = Fin 200"
  by (simp add: sweep_limit_def batch_limit_setting_def parseInt_200 example_defs)

lemma sweep_returns:
  "sweep_limit env options = Fin 200 \<Longrightarrow> \<exists>r. sweepPaidPayments env options s = Inr r"
  by (simp add: sweepPaidPayments_def getUnsweptPaidPayments_def prisma_take_def)

lemma example_store_wf: "wf_store example_store"
  by (simp add: wf_store_def example_defs)






section \<open>The sweep orchestrator\<close>

text \<open>
  C7, as the code has it. The selection takes a payment only if its status is
  \<open>confirmed\<close>, \<open>overpaid\<close> or \<open>paid\<close>, it is not swept and it has a custody address; when
  the cap is at least the number of such payments, the selection is exactly these payments.
\<close>

theorem sweep_selection:
  assumes "getUnsweptPaidPayments s n = Inr sel"
  shows "(\<forall>p\<in>set sel. p \<in> set s \<and> status p \<in> {confirmed, overpaid, paid} \<and>
            swept p = False \<and> stellar_address p \<noteq> None) \<and>
         (js_ge n (Fin (of_nat (length (filter unswept_paid s)))) \<longrightarrow>
            set sel = {p \<in> set s. status p \<in> {confirmed, overpaid, paid} \<and>
                         swept p = False \<and> stellar_address p \<noteq> None})"
proof -
  have 1: "\<forall>p\<in>set sel. p \<in> set s \<and> status p \<in> {confirmed, overpaid, paid} \<and>
            swept p = False \<and> stellar_address p \<noteq> None"
    using selection_subset[OF assms] by (auto simp: unswept_paid_def)
  have 2: "set sel = {p \<in> set s. status p \<in> {confirmed, overpaid, paid} \<and>
                         swept p = False \<and> stellar_address p \<noteq> None}"
    if "js_ge n (Fin (of_nat (length (filter unswept_paid s))))"
  proof -
    have "sel = order_by_confirmed (filter unswept_paid s)"
      using assms that unfolding getUnsweptPaidPayments_def
      by (intro prisma_take_all) (simp_all add: length_order_by_confirmed)
    then show ?thesis
      by (auto simp: set_order_by_confirmed unswept_paid_def)
  qed
  from 1 2 show ?thesis by blast
qed

theorem sweep_selection_witness:
  "getUnsweptPaidPayments example_store (Fin 200) = Inr (take 3 example_store) \<and>
   js_ge (Fin 200) (Fin (of_nat (length (filter unswept_paid example_store)))) \<and>
   set (take 3 example_store) =
     {p \<in> set example_store. status p \<in> {confirmed, overpaid, paid} \<and>
        swept p = False \<and> stellar_address p \<noteq> None}"
proof -
  have sel: "getUnsweptPaidPayments example_store (Fin 200) = Inr (take 3 example_store)"
    by (simp add: selection_defs example_defs)
  have cap: "js_ge (Fin 200) (Fin (of_nat (length (filter unswept_paid example_store))))"
    by (simp add: js_ge_def unswept_paid_def example_defs)
  from sweep_selection[OF sel] cap sel show ?thesis
    by blast
qed

text \<open>
  The selection does take a payment whose status is \<open>paid\<close>, a status outside
  \<open>confirmed\<close> and \<open>overpaid\<close>.
\<close>

theorem paid_status_is_selected:
  "getUnsweptPaidPayments [example_payment\<lparr>status := paid\<rparr>] (Fin 200) =
     Inr [example_payment\<lparr>status := paid\<rparr>] \<and>
   status (example_payment\<lparr>status := paid\<rparr>) \<notin> {confirmed, overpaid}"
  by (simp add: getUnsweptPaidPayments_def unswept_paid_def prisma_take_def example_payment_def)



text \<open>
  C4, as the code has it. A dry run leaves the store as it was (so no \<open>swept\<close>,
  \<open>swept_at\<close> or \<open>sweep_tx_hash\<close> changes) and submits no transaction to the ledger. Its
  result reports the number of valid payments among those the run selected under its cap,
  and as total the sum of their amounts, added in doubles in the order of the selection
  and rendered with seven decimals.
\<close>

theorem dry_run_changes_nothing:
  assumes "dryRun options" and "sweepPaidPayments env options s = Inr r"
  shows "run_db r = s \<and> run_submitted r = [] \<and> r_txHashes (run_result r) = [] \<and>
         (\<exists>sel. getUnsweptPaidPayments s (sweep_limit env options) = Inr sel \<and>
            r_addressesSwept (run_result r) = length (filter (would_sweep env) sel) \<and>
            r_totalAmount (run_result r) =
              toFixed7 env
                (foldl (number_add env) (Fin 0) (map amount (filter (would_sweep env) sel))))"
proof -
  from sweep_run_selD[OF assms(2)] assms(1) obtain sel where
    sel: "getUnsweptPaidPayments s (sweep_limit env options) = Inr sel"
    and r: "r = sweep_finish env (sweep_loop env True sel (sweep_init s))"
    by auto
  have sub: "payment_id ` set sel \<subseteq> ids (db (sweep_init s))"
    using sel by (rule selection_ids)
  have frame: "run_db r = s" "run_submitted r = []" "r_txHashes (run_result r) = []"
    using sweep_loop_dry[of env sel "sweep_init s"]
    by (simp_all add: r sweep_finish_def sweep_init_def)
  have count: "r_addressesSwept (run_result r) = length (filter (would_sweep env) sel)"
    using sweep_loop_count[OF sub, of env True]
    by (simp add: r sweep_finish_def sweep_init_def skip_reason_dry)
  have total: "r_totalAmount (run_result r) =
      toFixed7 env (foldl (number_add env) (Fin 0) (map amount (filter (would_sweep env) sel)))"
    using sweep_loop_total[OF sub, of env True]
    by (simp add: r sweep_finish_def sweep_init_def skip_reason_dry)
  from frame count total sel show ?thesis
    by blast
qed

theorem dry_run_changes_nothing_witness:
  "dryRun (example_options\<lparr>dryRun := True\<rparr>) \<and>
   map_sum id (\<lambda>r. (run_db r = example_store, run_submitted r, r_addressesSwept (run_result r),
                     r_totalAmount (run_result r)))
     (sweepPaidPayments example_sweep_env (example_options\<lparr>dryRun := True\<rparr>) example_store) =
   Inr (True, [], 2, ''150.0000000'')"
proof -
  let ?o = "example_options\<lparr>dryRun := True\<rparr>"
  have d: "dryRun ?o"
    by (simp add: example_options_def)
  have lim: "sweep_limit example_sweep_env ?o = Fin 200"
    by (simp add: sweep_limit_def batch_limit_setting_def parseInt_200 example_defs)
  have sel: "getUnsweptPaidPayments example_store (sweep_limit example_sweep_env ?o) =
      Inr (take 3 example_store)"
    using example_selection by (simp add: lim example_store_def)
  obtain r where r: "sweepPaidPayments example_sweep_env ?o example_store = Inr r"
    using sweep_run_unfold[OF sel] by blast
  have ws: "filter (would_sweep example_sweep_env) (take 3 example_store) =
      [example_payment,
       example_payment\<lparr>payment_id := ''p3'', stellar_address := Some ''Gp3'', amount := Fin 50,
                       status := overpaid, confirmed_at := Some 30\<rparr>]"
    by (simp add: would_sweep_def address_mismatch_def example_defs)
  from dry_run_changes_nothing[OF d r] sel ws
  have "run_db r = example_store" "run_submitted r = []" "r_addressesSwept (run_result r) = 2"
    "r_totalAmount (run_result r) = ''150.0000000''"
    by (simp_all add: example_defs)
  then show ?thesis
    using d r by simp
qed

text \<open>
  A dry run with \<open>limit = 1\<close> over the store, where two eligible payments are valid (\<open>p1\<close>
  and \<open>p3\<close>): it reports one address and the amount of \<open>p1\<close> alone.
\<close>

theorem dry_run_reports_capped_selection:
  "sweepPaidPayments example_sweep_env (example_options\<lparr>limit := Some (Fin 1), dryRun := True\<rparr>)
     example_store =
     Inr \<lparr>run_result =
            \<lparr>r_addressesSwept = 1, r_totalAmount = ''100.0000000'',
             r_masterVaultPublicKey = ''GVAULT'', r_txHashes = [], r_skipped = []\<rparr>,
          run_db = example_store, run_submitted = [],
          run_audit = Some (''audit1'', completed)\<rparr> \<and>
   filter would_be_swept example_store =
     [example_payment,
      example_payment\<lparr>payment_id := ''p3'', stellar_address := Some ''Gp3'', amount := Fin 50,
                       status := overpaid, confirmed_at := Some 30\<rparr>]"
  by (simp add: run_defs selection_defs would_be_swept_def would_sweep_def address_mismatch_def
      example_defs)

text \<open>
  C5. A sweep run over a selection returns a result: it counts as swept the payments that
  run into nothing and lists every other payment in \<open>skipped\<close> with its reason, in order.
  In particular, with one failing payment anywhere among \<open>N\<close> succeeding ones the result
  has \<open>N\<close> successes and the failing payment as its only skip.
\<close>

theorem sweep_failures_isolated:
  assumes "getUnsweptPaidPayments s (sweep_limit env options) = Inr sel"
  shows "\<exists>r. sweepPaidPayments env options s = Inr r \<and>
           r_addressesSwept (run_result r) =
             length (filter (\<lambda>p. skip_reason env (dryRun options) p = None) sel) \<and>
           r_skipped (run_result r) = skipped_of env (dryRun options) sel \<and>
           (\<forall>xs bad ys reason.
              sel = xs @ bad # ys \<and> (\<forall>p\<in>set (xs @ ys). skip_reason env (dryRun options) p = None) \<and>
              skip_reason env (dryRun options) bad = Some reason \<longrightarrow>
              r_addressesSwept (run_result r) = length xs + length ys \<and>
              r_skipped (run_result r) = [(payment_id bad, reason)])"
proof -
  let ?dry = "dryRun options"
  let ?r = "sweep_finish env (sweep_loop env ?dry sel (sweep_init s))"
  have run: "sweepPaidPayments env options s = Inr ?r"
    using assms by (rule sweep_run_unfold)
  have sub: "payment_id ` set sel \<subseteq> ids (db (sweep_init s))"
    using assms by (rule selection_ids)
  have count: "r_addressesSwept (run_result ?r) =
      length (filter (\<lambda>p. skip_reason env ?dry p = None) sel)"
    using sweep_loop_count[OF sub, of env ?dry] by (simp add: sweep_finish_def sweep_init_def)
  have skips: "r_skipped (run_result ?r) = skipped_of env ?dry sel"
    using sweep_loop_skipped[OF sub, of env ?dry] by (simp add: sweep_finish_def sweep_init_def)
  have one: "r_addressesSwept (run_result ?r) = length xs + length ys \<and>
      r_skipped (run_result ?r) = [(payment_id bad, reason)]"
    if "sel = xs @ bad # ys" "\<forall>p\<in>set (xs @ ys). skip_reason env ?dry p = None"
      "skip_reason env ?dry bad = Some reason" for xs bad ys reason
  proof -
    have ok: "filter (\<lambda>p. skip_reason env ?dry p = None) xs = xs"
      "filter (\<lambda>p. skip_reason env ?dry p = None) ys = ys"
      "filter (\<lambda>p. \<exists>y. skip_reason env ?dry p = Some y) xs = []"
      "filter (\<lambda>p. \<exists>y. skip_reason env ?dry p = Some y) ys = []"
      using that(2) by (simp_all add: filter_id_conv filter_empty_conv)
    show ?thesis
      using count skips unfolding skipped_of_def that(1)
      by (simp add: ok that(3))
  qed
  from run count skips one show ?thesis
    by blast
qed

theorem sweep_failures_isolated_witness:
  "getUnsweptPaidPayments example_store (sweep_limit example_sweep_env example_options) =
     Inr (take 3 example_store) \<and>
   map_sum id (\<lambda>r. (r_addressesSwept (run_result r), r_skipped (run_result r)))
     (sweepPaidPayments example_sweep_env example_options example_store) =
   Inr (2, [(''p2'', ''Invalid amount'')])"
proof -
  have lim: "sweep_limit example_sweep_env example_options = Fin 200"
    by (simp add: sweep_limit_def batch_limit_setting_def parseInt_200 example_defs)
  have sel: "getUnsweptPaidPayments example_store (sweep_limit example_sweep_env example_options) =
      Inr (take 3 example_store)"
    using example_selection by (simp add: lim example_store_def)
  have parts: "take 3 example_store = [example_payment] @
      (example_payment\<lparr>payment_id := ''p2'', stellar_address := Some ''Gp2'', amount := NaN,
                       confirmed_at := Some 20\<rparr>) #
      [example_payment\<lparr>payment_id := ''p3'', stellar_address := Some ''Gp3'', amount := Fin 50,
                       status := overpaid, confirmed_at := Some 30\<rparr>]"
    by (simp add: example_store_def)
  have good: "\<forall>p\<in>set ([example_payment] @
      [example_payment\<lparr>payment_id := ''p3'', stellar_address := Some ''Gp3'', amount := Fin 50,
                       status := overpaid, confirmed_at := Some 30\<rparr>]).
      skip_reason example_sweep_env (dryRun example_options) p = None"
    by (simp add: skip_reason_def invalid_amount_def address_mismatch_def submitUsdcSweepTx_def
        js_le_def js_ge_def js_eq_def example_defs)
  have bad: "skip_reason example_sweep_env (dryRun example_options)
      (example_payment\<lparr>payment_id := ''p2'', stellar_address := Some ''Gp2'', amount := NaN,
                       confirmed_at := Some 20\<rparr>) = Some ''Invalid amount''"
    by (simp add: skip_reason_def invalid_amount_def example_defs)
  from sweep_failures_isolated[OF sel] obtain r where
    r: "sweepPaidPayments example_sweep_env example_options example_store = Inr r"
    and one: "\<forall>xs bad ys reason.
        take 3 example_store = xs @ bad # ys \<and>
        (\<forall>p\<in>set (xs @ ys). skip_reason example_sweep_env (dryRun example_options) p = None) \<and>
        skip_reason example_sweep_env (dryRun example_options) bad = Some reason \<longrightarrow>
        r_addressesSwept (run_result r) = length xs + length ys \<and>
        r_skipped (run_result r) = [(payment_id bad, reason)]"
    by blast
  from one parts good bad
  have "r_addressesSwept (run_result r) = length [example_payment] +
      length [example_payment\<lparr>payment_id := ''p3'', stellar_address := Some ''Gp3'', amount := Fin 50,
                       status := overpaid, confirmed_at := Some 30\<rparr>] \<and>
      r_skipped (run_result r) =
      [(payment_id (example_payment\<lparr>payment_id := ''p2'', stellar_address := Some ''Gp2'',
                       amount := NaN, confirmed_at := Some 20\<rparr>), ''Invalid amount'')]"
    by blast
  then show ?thesis
    using sel r by simp
qed

text \<open>
  C6 at a payment whose stored address is the empty string: the comparison with the
  re-derived public key is guarded by the truthiness of the stored address, so the
  payment is not skipped and a transfer signed with the re-derived secret is submitted,
  although the re-derived public key differs from the stored address.
\<close>

theorem empty_stored_address_not_compared:
  "sweepPaidPayments example_sweep_env example_options [example_payment\<lparr>stellar_address := Some ''''\<rparr>] =
     Inr \<lparr>run_result =
            \<lparr>r_addressesSwept = 1, r_totalAmount = ''100.0000000'',
             r_masterVaultPublicKey = ''GVAULT'',
             r_txHashes = [''Hp1''], r_skipped = []\<rparr>,
          run_db = [example_payment\<lparr>stellar_address := Some '''', swept := True,
                      swept_at := Some 5000, sweep_tx_hash := Some ''Hp1''\<rparr>],
          run_submitted =
            [(''p1'', \<lparr>tx_source = ''Gp1'', tx_signed_with = ''Sp1'', tx_destination = ''GVAULT'',
                       tx_amount = ''100.0000000''\<rparr>)],
          run_audit = Some (''audit1'', completed)\<rparr> \<and>
   map_sum id publicKey (regenerateKeypair example_sweep_env ''m1'' ''p1'') = Inr ''Gp1'' \<and>
   Some ''Gp1'' \<noteq> stellar_address (example_payment\<lparr>stellar_address := Some ''''\<rparr>)"
  by (simp add: run_defs selection_defs example_defs)

text \<open>
  Where the stored address is not empty, a selected payment whose re-derived public key
  differs from it is skipped with a reason, and no transaction is submitted for it.
\<close>

lemma mismatch_is_skipped:
  assumes wf: "wf_store s"
    and run: "sweepPaidPayments env options s = Inr r"
    and sel: "getUnsweptPaidPayments s (sweep_limit env options) = Inr sel"
    and p: "p \<in> set sel"
    and kp: "regenerateKeypair env (merchantId p) (payment_id p) = Inr kp"
    and addr: "stellar_address p = Some a" "a \<noteq> []" "publicKey kp \<noteq> a"
  shows "(\<exists>reason. (payment_id p, reason) \<in> set (r_skipped (run_result r))) \<and>
         payment_id p \<notin> fst ` set (run_submitted r)"
proof -
  have r: "r = sweep_finish env (sweep_loop env (dryRun options) sel (sweep_init s))"
    using run sel by (simp add: sweepPaidPayments_def)
  have mm: "address_mismatch kp p"
    using addr by (simp add: address_mismatch_def)
  then have nv: "\<not> would_sweep env p"
    using kp by (simp add: would_sweep_def)
  have "skip_reason env (dryRun options) p \<noteq> None"
    using kp mm by (simp add: skip_reason_def)
  then have "(payment_id p, the (skip_reason env (dryRun options) p)) \<in>
      set (skipped_of env (dryRun options) sel)"
    using p by (simp add: skipped_of_def image_iff) blast
  moreover have "r_skipped (run_result r) = skipped_of env (dryRun options) sel"
    using sweep_loop_skipped[OF selection_ids[OF sel], of env "dryRun options"]
    by (simp add: r sweep_finish_def sweep_init_def)
  ultimately have skipped: "\<exists>reason. (payment_id p, reason) \<in> set (r_skipped (run_result r))"
    by auto
  have subm: "run_submitted r = submitted (sweep_loop env (dryRun options) sel (sweep_init s))"
    by (simp add: r sweep_finish_def)
  have "payment_id p \<notin> fst ` set (run_submitted r)"
  proof
    assume "payment_id p \<in> fst ` set (run_submitted r)"
    then have "payment_id p \<in> fst ` set (submitted (sweep_init s)) \<or>
        (\<exists>p2\<in>set sel. would_sweep env p2 \<and> payment_id p2 = payment_id p)"
      unfolding subm by (rule sweep_loop_submitted_valid)
    then obtain p2 where p2: "p2 \<in> set sel" "would_sweep env p2" "payment_id p = payment_id p2"
      by (auto simp: sweep_init_def)
    have "p \<in> set s" "p2 \<in> set s"
      using selection_subset[OF sel] p p2(1) by auto
    then have "p = p2"
      using wf p2(3) by (intro wf_store_inj[of s p p2])
    then show False
      using nv p2(2) by simp
  qed
  with skipped show ?thesis
    by blast
qed

text \<open>
  C1. In a store with distinct ids: the sweep selection returns only payments with
  \<open>swept = false\<close>; a payment whose transfer succeeds in a run is marked \<open>swept = true\<close>
  with \<open>swept_at\<close> and the hash of its transfer as \<open>sweep_tx_hash\<close>; and once a payment is
  swept it stays swept through every history of sweep runs, monitor ticks and
  verifications, and no sweep run after such a history submits a transfer for it.
\<close>

theorem swept_payment_never_swept_again:
  assumes "wf_store s"
  shows "(\<forall>n sel. getUnsweptPaidPayments s n = Inr sel \<longrightarrow> (\<forall>p\<in>set sel. swept p = False)) \<and>
         (\<forall>env options r sel p.
            sweepPaidPayments env options s = Inr r \<and>
            getUnsweptPaidPayments s (sweep_limit env options) = Inr sel \<and>
            p \<in> set sel \<and> \<not> dryRun options \<and> skip_reason env False p = None \<longrightarrow>
            (\<exists>hash. hash \<in> set (r_txHashes (run_result r)) \<and>
               findUnique (run_db r) (payment_id p) =
                 Some (p\<lparr>swept := True, swept_at := Some (new_Date env (payment_id p)),
                         sweep_tx_hash := Some hash\<rparr>))) \<and>
         (\<forall>ops p. p \<in> set s \<and> swept p \<longrightarrow>
            (\<exists>p'. findUnique (apply_operations ops s) (payment_id p) = Some p' \<and> swept p') \<and>
            (\<forall>env options r.
               sweepPaidPayments env options (apply_operations ops s) = Inr r \<longrightarrow>
               payment_id p \<notin> fst ` set (run_submitted r)))"
proof -
  have 1: "\<forall>p\<in>set sel. swept p = False" if "getUnsweptPaidPayments s n = Inr sel" for n sel
    using selected_unswept[OF that] by blast
  have 2: "\<exists>hash. hash \<in> set (r_txHashes (run_result r)) \<and>
      findUnique (run_db r) (payment_id p) =
        Some (p\<lparr>swept := True, swept_at := Some (new_Date env (payment_id p)),
                sweep_tx_hash := Some hash\<rparr>)"
    if run: "sweepPaidPayments env options s = Inr r"
      and sel: "getUnsweptPaidPayments s (sweep_limit env options) = Inr sel"
      and p: "p \<in> set sel" and wet: "\<not> dryRun options"
      and ok: "skip_reason env False p = None"
    for env options r sel p
  proof -
    have r: "r = sweep_finish env (sweep_loop env False sel (sweep_init s))"
      using run sel wet by (simp add: sweepPaidPayments_def)
    have d: "distinct (map payment_id sel)"
      using sel assms by (rule selection_distinct)
    from sweep_loop_marks[OF d p selection_ids[OF sel] ok] obtain hash q where
      h: "findUnique (db (sweep_loop env False sel (sweep_init s))) (payment_id p) =
            Some (sweep_mark (new_Date env (payment_id p)) hash q)"
         "findUnique (db (sweep_init s)) (payment_id p) = Some q"
         "hash \<in> set (txHashes (sweep_loop env False sel (sweep_init s)))"
      by blast
    have "p \<in> set s"
      using selected_unswept[OF sel p] by simp
    then have "findUnique s (payment_id p) = Some p"
      using assms by (intro findUnique_wf)
    then have "q = p"
      using h(2) by (simp add: sweep_init_def)
    then show ?thesis
      using h(1,3) by (intro exI[of _ hash]) (simp add: r sweep_finish_def sweep_mark_def)
  qed
  have 3: "(\<exists>p'. findUnique (apply_operations ops s) (payment_id p) = Some p' \<and> swept p') \<and>
      (\<forall>env options r.
         sweepPaidPayments env options (apply_operations ops s) = Inr r \<longrightarrow>
         payment_id p \<notin> fst ` set (run_submitted r))"
    if p: "p \<in> set s" and sw: "swept p" for ops p
  proof -
    let ?s = "apply_operations ops s"
    have kept: "list_all2 swept_kept s ?s"
      by (rule apply_operations_kept)
    then have wf: "wf_store ?s"
      using assms by (rule swept_kept_wf)
    have "findUnique s (payment_id p) = Some p"
      using assms p by (rule findUnique_wf)
    from swept_kept_find[OF kept this] sw obtain p' where
      p': "findUnique ?s (payment_id p) = Some p'" "swept p'"
      by blast
    then show ?thesis
      using swept_not_submitted[OF wf p'(1) p'(2)] by blast
  qed
  from 1 2 3 show ?thesis
    by blast
qed

theorem swept_payment_never_swept_again_witness:
  "wf_store example_store \<and>
   (\<exists>r1 p' r2.
      sweepPaidPayments example_sweep_env example_options example_store = Inr r1 \<and>
      findUnique (run_db r1) ''p1'' = Some p' \<and> swept p' \<and>
      sweepPaidPayments example_sweep_env example_options
        (apply_operations [Tick example_monitor_env 0] (run_db r1)) = Inr r2 \<and>
      ''p1'' \<notin> fst ` set (run_submitted r2))"
proof -
  have sel: "getUnsweptPaidPayments example_store (sweep_limit example_sweep_env example_options) =
      Inr (take 3 example_store)"
    using example_selection by (simp add: example_limit example_store_def)
  obtain r1 where r1: "sweepPaidPayments example_sweep_env example_options example_store = Inr r1"
    using sweep_run_unfold[OF sel] by blast
  have p: "example_payment \<in> set (take 3 example_store)"
    by (simp add: example_store_def)
  have wet: "\<not> dryRun example_options"
    by (simp add: example_options_def)
  have ok: "skip_reason example_sweep_env False example_payment = None"
    by (simp add: skip_reason_def invalid_amount_def address_mismatch_def submitUsdcSweepTx_def
        js_le_def js_ge_def js_eq_def example_defs)
  from swept_payment_never_swept_again[OF example_store_wf] r1 sel p wet ok
  have "\<exists>hash. hash \<in> set (r_txHashes (run_result r1)) \<and>
      findUnique (run_db r1) (payment_id example_payment) =
        Some (example_payment\<lparr>swept := True,
                swept_at := Some (new_Date example_sweep_env (payment_id example_payment)),
                sweep_tx_hash := Some hash\<rparr>)"
    by blast
  then obtain p' where p': "findUnique (run_db r1) ''p1'' = Some p'" "swept p'"
    by (auto simp: example_payment_def)
  have wf1: "wf_store (run_db r1)"
    using sweep_run_kept[OF r1] example_store_wf by (rule swept_kept_wf)
  have in1: "p' \<in> set (run_db r1)" and id1: "payment_id p' = ''p1''"
    using findUnique_SomeD[OF p'(1)] by simp_all
  obtain r2 where r2: "sweepPaidPayments example_sweep_env example_options
        (apply_operations [Tick example_monitor_env 0] (run_db r1)) = Inr r2"
    using sweep_returns[OF example_limit] by blast
  from swept_payment_never_swept_again[OF wf1] in1 p'(2) r2
  have "payment_id p' \<notin> fst ` set (run_submitted r2)"
    by blast
  then show ?thesis
    using example_store_wf r1 p' r2 id1 by auto
qed

section \<open>The ledger observer\<close>

lemmas tick_defs = observed_def query_cursor_def totalReceived_def scan_records_def scan_record_def
  token_newer_def is_usdc_payment_def newStatus_def js_ge_def js_eq_def Let_def

lemma example_pending_in: "example_pending \<in> set example_store"
  by (simp add: example_store_def example_pending_def)

lemma example_pending_fields:
  "payment_id example_pending = ''p4''" "status example_pending = pending"
  "expiration example_pending = 1000" "stellar_address example_pending = Some ''Gp4''"
  "amount example_pending = Fin 100" "last_paging_token example_pending = None"
  by (simp_all add: example_pending_def example_payment_def)

lemma example_ledger:
  "loadAccount example_monitor_env ''Gp4'' =
     Inr [\<lparr>asset_code = Some ''USDC'', asset_issuer = Some ''GISSUER'', balance = Fin 100\<rparr>]"
  "payments_call example_monitor_env ''Gp4'' c =
     Inr [\<lparr>paging_token = ''67890'', op_type = ''payment'',
           op_asset_type = Some ''credit_alphanum4'', op_asset_code = Some ''USDC'',
           op_asset_issuer = Some ''GISSUER'', op_transaction_hash = ''tx_1'',
           op_from = ''G_PAYER''\<rparr>]"
  "totalReceived example_monitor_env
     [\<lparr>asset_code = Some ''USDC'', asset_issuer = Some ''GISSUER'', balance = Fin 100\<rparr>] =
     Inr (Fin 100)"
  "scan_records example_monitor_env None
     [\<lparr>paging_token = ''67890'', op_type = ''payment'',
       op_asset_type = Some ''credit_alphanum4'', op_asset_code = Some ''USDC'',
       op_asset_issuer = Some ''GISSUER'', op_transaction_hash = ''tx_1'',
       op_from = ''G_PAYER''\<rparr>] =
     Inr \<lparr>latestPagingToken = Some ''67890'', latestTxHash = Some ''tx_1'',
          latestPayer = Some ''G_PAYER''\<rparr>"
  "getUsdcAsset example_monitor_env = Inr ''GISSUER''"
  by (simp_all add: example_monitor_env_def tick_defs)

lemma example_tick_row:
  "tick_row example_monitor_env 0 example_pending =
     example_pending\<lparr>status := confirmed, last_paging_token := Some ''67890'',
                      transaction_hash := Some ''tx_1''\<rparr>"
  by (simp add: tick_row_def expire_row_def is_active_def monitor_row_def observed_def
      query_cursor_def example_ledger example_pending_fields newStatus_def js_ge_def js_eq_def)

lemma usdcBalanceRecord_event_failure:
  "usdcBalanceRecord (env\<lparr>event_failure := ef\<rparr>) balances = usdcBalanceRecord env balances"
  by (induction balances) (simp_all split: sum.splits)

lemma totalReceived_event_failure:
  "totalReceived (env\<lparr>event_failure := ef\<rparr>) balances = totalReceived env balances"
  by (simp add: totalReceived_def usdcBalanceRecord_event_failure)

lemma scan_record_event_failure:
  "scan_record (env\<lparr>event_failure := ef\<rparr>) sc r = scan_record env sc r"
  by (simp add: scan_record_def is_usdc_payment_def)

lemma scan_loop_event_failure:
  "scan_loop (env\<lparr>event_failure := ef\<rparr>) sc rs = scan_loop env sc rs"
  by (induction rs arbitrary: sc) (simp_all add: scan_record_event_failure split: sum.splits)

lemma observed_event_failure:
  "observed (env\<lparr>event_failure := ef\<rparr>) p = observed env p"
  by (simp add: observed_def totalReceived_event_failure scan_records_def scan_loop_event_failure
      split: option.splits sum.splits)

lemma monitor_row_event_failure:
  "monitor_row (env\<lparr>event_failure := ef\<rparr>) = monitor_row env"
  by (intro ext) (simp add: monitor_row_def observed_event_failure)

lemma tick_tdb_event_failure:
  "tdb (runPaymentMonitorTick (env\<lparr>event_failure := ef\<rparr>) now s) =
   tdb (runPaymentMonitorTick env now s)"
  by (simp add: tick_tdb monitor_row_event_failure)

text \<open>
  C2. In a store with distinct ids, take a pending or partially paid payment. If its
  expiration is not after the tick time, the bulk update at the start of the tick makes it
  \<open>expired\<close> and it is \<open>expired\<close> after the tick, whatever the ledger answers. If it is still
  active and the tick observes a balance for it, that is, the account is loaded, the
  balance \<open>received\<close> of the expected asset is read from its lines, the history query
  returns and the scan of its records ends without a throw, then its status after the
  tick is \<open>confirmed\<close> when \<open>received\<close> equals the expected amount, \<open>overpaid\<close> when it is
  greater, and \<open>partially_paid\<close> when it is positive and smaller. The balance is read and
  the scan ends whenever the expected asset can be built.
\<close>

theorem tick_classifies:
  assumes "wf_store s" and "p \<in> set s" and "status p \<in> {pending, partially_paid}"
  shows "\<exists>p'. findUnique (tdb (runPaymentMonitorTick env now s)) (payment_id p) = Some p' \<and>
     (expiration p \<le> now \<longrightarrow>
        status p' = expired \<and>
        findUnique (expire_overdue now s) (payment_id p) = Some (p\<lparr>status := expired\<rparr>)) \<and>
     (\<forall>a balances received records sc.
        now < expiration p \<and> stellar_address p = Some a \<and> a \<noteq> [] \<and>
        loadAccount env a = Inr balances \<and>
        totalReceived env balances = Inr received \<and>
        payments_call env a (query_cursor p) = Inr records \<and>
        scan_records env (last_paging_token p) records = Inr sc \<longrightarrow>
        (js_eq received (amount p) \<longrightarrow> status p' = confirmed) \<and>
        (js_gt received (amount p) \<longrightarrow> status p' = overpaid) \<and>
        (js_gt received (Fin 0) \<and> js_gt (amount p) received \<longrightarrow> status p' = partially_paid)) \<and>
     (\<forall>issuer balances records.
        getUsdcAsset env = Inr issuer \<longrightarrow>
        (\<exists>received. totalReceived env balances = Inr received) \<and>
        (\<exists>sc. scan_records env (last_paging_token p) records = Inr sc))"
proof -
  have row: "findUnique s (payment_id p) = Some p"
    using assms(1,2) by (rule findUnique_wf)
  then have tick: "findUnique (tdb (runPaymentMonitorTick env now s)) (payment_id p) =
      Some (tick_row env now p)"
    by (simp add: findUnique_tick[OF assms(1)])
  have overdue: "status (tick_row env now p) = expired \<and>
      findUnique (expire_overdue now s) (payment_id p) = Some (p\<lparr>status := expired\<rparr>)"
    if "expiration p \<le> now"
    using assms(3) that row
    by (simp add: tick_row_overdue expire_overdue_def findUnique_map expire_row_def)
  have active: "(js_eq received (amount p) \<longrightarrow> status (tick_row env now p) = confirmed) \<and>
      (js_gt received (amount p) \<longrightarrow> status (tick_row env now p) = overpaid) \<and>
      (js_gt received (Fin 0) \<and> js_gt (amount p) received \<longrightarrow>
         status (tick_row env now p) = partially_paid)"
    if "now < expiration p" "stellar_address p = Some a" "a \<noteq> []"
      "loadAccount env a = Inr balances" "totalReceived env balances = Inr received"
      "payments_call env a (query_cursor p) = Inr records"
      "scan_records env (last_paging_token p) records = Inr sc"
    for a balances received records sc
  proof -
    have "is_active now p"
      using assms(3) that(1,2) by (simp add: is_active_def)
    then have t: "tick_row env now p = monitor_row env p p"
      by (rule tick_row_active)
    have obs: "observed env p = Some (received, sc)"
      using that(2-7) by (rule observedI)
    show ?thesis
      unfolding t
      using monitor_row_status[OF obs] newStatus_confirmed[of received "amount p"]
        newStatus_overpaid[of received "amount p"]
        newStatus_partially_paid[of received "amount p"]
      by blast
  qed
  have reads: "(\<exists>received. totalReceived env balances = Inr received) \<and>
      (\<exists>sc. scan_records env (last_paging_token p) records = Inr sc)"
    if "getUsdcAsset env = Inr issuer" for issuer balances records
    using totalReceived_returns[OF that] scan_records_returns[OF that] by blast
  from tick overdue active reads show ?thesis
    by blast
qed

theorem tick_classifies_witness:
  "wf_store example_store \<and> example_pending \<in> set example_store \<and>
   status example_pending \<in> {pending, partially_paid} \<and>
   map_option status
     (findUnique (tdb (runPaymentMonitorTick example_monitor_env 0 example_store)) ''p4'') =
     Some confirmed \<and>
   map_option status
     (findUnique (tdb (runPaymentMonitorTick example_monitor_env 2000 example_store)) ''p4'') =
     Some expired"
proof -
  have st: "status example_pending \<in> {pending, partially_paid}"
    by (simp add: example_pending_fields)
  let ?bal = "[\<lparr>asset_code = Some ''USDC'', asset_issuer = Some ''GISSUER'', balance = Fin 100\<rparr>]"
  let ?recs = "[\<lparr>paging_token = ''67890'', op_type = ''payment'',
           op_asset_type = Some ''credit_alphanum4'', op_asset_code = Some ''USDC'',
           op_asset_issuer = Some ''GISSUER'', op_transaction_hash = ''tx_1'',
           op_from = ''G_PAYER''\<rparr>]"
  let ?sc = "\<lparr>latestPagingToken = Some ''67890'', latestTxHash = Some ''tx_1'',
          latestPayer = Some ''G_PAYER''\<rparr>"
  from tick_classifies[OF example_store_wf example_pending_in st, of example_monitor_env 0]
  obtain p' where p': "findUnique (tdb (runPaymentMonitorTick example_monitor_env 0 example_store))
        (payment_id example_pending) = Some p'"
    and cls: "\<forall>a balances received records sc.
        0 < expiration example_pending \<and> stellar_address example_pending = Some a \<and> a \<noteq> [] \<and>
        loadAccount example_monitor_env a = Inr balances \<and>
        totalReceived example_monitor_env balances = Inr received \<and>
        payments_call example_monitor_env a (query_cursor example_pending) = Inr records \<and>
        scan_records example_monitor_env (last_paging_token example_pending) records = Inr sc \<longrightarrow>
        (js_eq received (amount example_pending) \<longrightarrow> status p' = confirmed) \<and>
        (js_gt received (amount example_pending) \<longrightarrow> status p' = overpaid) \<and>
        (js_gt received (Fin 0) \<and> js_gt (amount example_pending) received \<longrightarrow>
           status p' = partially_paid)"
    by blast
  have "js_eq (Fin 100) (amount example_pending) \<longrightarrow> status p' = confirmed"
    using cls[rule_format, of "''Gp4''" ?bal "Fin 100" ?recs ?sc]
    by (simp add: example_pending_fields example_ledger)
  then have 1: "status p' = confirmed"
    by (simp add: js_eq_def example_pending_fields)
  from tick_classifies[OF example_store_wf example_pending_in st, of example_monitor_env 2000]
  obtain p'' where p'': "findUnique (tdb (runPaymentMonitorTick example_monitor_env 2000 example_store))
        (payment_id example_pending) = Some p''" "status p'' = expired"
    by (auto simp: example_pending_fields)
  show ?thesis
    using example_store_wf example_pending_in st p' 1 p''
    by (simp add: example_pending_fields)
qed

text \<open>
  In the order the code compares tokens with (strings character by character, no token
  below every token), the paging token of a payment after a tick is greater than or equal
  to its token before, and when it changed it is the paging token of one of the records
  the ledger returned for the payment's address.
\<close>

lemma cursor_grows_as_string:
  assumes "wf_store s" and "p \<in> set s"
  shows "\<exists>p'. findUnique (tdb (runPaymentMonitorTick env now s)) (payment_id p) = Some p' \<and>
     last_paging_token p \<le> last_paging_token p' \<and>
     (last_paging_token p' \<noteq> last_paging_token p \<longrightarrow>
        last_paging_token p < last_paging_token p' \<and>
        (\<exists>a records r. stellar_address p = Some a \<and>
           payments_call env a (query_cursor p) = Inr records \<and> r \<in> set records \<and>
           last_paging_token p' = Some (paging_token r)))"
proof -
  have "findUnique s (payment_id p) = Some p"
    using assms by (rule findUnique_wf)
  then have tick: "findUnique (tdb (runPaymentMonitorTick env now s)) (payment_id p) =
      Some (tick_row env now p)"
    by (simp add: findUnique_tick[OF assms(1)])
  from tick_row_cursor[of env now p]
  have "last_paging_token p \<le> last_paging_token (tick_row env now p) \<and>
     (last_paging_token (tick_row env now p) \<noteq> last_paging_token p \<longrightarrow>
        last_paging_token p < last_paging_token (tick_row env now p) \<and>
        (\<exists>a records r. stellar_address p = Some a \<and>
           payments_call env a (query_cursor p) = Inr records \<and> r \<in> set records \<and>
           last_paging_token (tick_row env now p) = Some (paging_token r)))"
    by (auto simp: less_imp_le)
  with tick show ?thesis
    by blast
qed

text \<open>
  C3. Paging tokens are positions of the ledger written in decimal digits, and the code
  compares them as strings. Take a payment whose stored token is \<open>12345\<close> and a tick whose
  history query, which runs from the cursor towards older records, returns a record with
  the token \<open>99\<close>. As strings \<open>99\<close> is greater than \<open>12345\<close>, so the tick stores \<open>99\<close>: the
  persisted cursor has moved from position 12345 back to position 99.
\<close>

theorem cursor_moves_back:
  "token_newer ''99'' (Some ''12345'') \<and>
   map last_paging_token
     (tdb (runPaymentMonitorTick
            (example_monitor_env\<lparr>payments_call :=
               (\<lambda>a c. Inr [\<lparr>paging_token = ''99'', op_type = ''payment'',
                             op_asset_type = Some ''credit_alphanum4'', op_asset_code = Some ''USDC'',
                             op_asset_issuer = Some ''GISSUER'', op_transaction_hash = ''tx_0'',
                             op_from = ''G_PAYER''\<rparr>])\<rparr>)
            0 [example_pending\<lparr>last_paging_token := Some ''12345''\<rparr>])) = [Some ''99''] \<and>
   decimal_value ''99'' < decimal_value ''12345''"
  by (simp add: runPaymentMonitorTick_def expire_overdue_def expire_row_def active_payments_def
      is_active_def monitor_payment_def payment_update_def upd_row_def ids_def findUnique_def
      tick_defs example_pending_fields example_monitor_env_def)

text \<open>
  C9, as the code has it. Take a tick in which a payment of a store with distinct ids
  moves into \<open>confirmed\<close> or \<open>overpaid\<close>, so that the store after the tick holds the new
  status. Then the tick has read the balance \<open>received\<close> of the expected asset at the
  payment's address, and the new status is the one that balance gives. When moreover one
  of the records returned for the address is a transfer of the expected asset, the tick
  starts the verification of the payment with the transaction hash of the first such
  record and the received amount and, unless emitting fails, emits the event with the
  updated row. The store after the tick is the same whatever the event emission does; the
  verification is started and not awaited, so the tick takes nothing from it.
\<close>

theorem settled_payment_is_dispatched:
  assumes "wf_store s" and "p \<in> set s"
    and "findUnique (tdb (runPaymentMonitorTick env now s)) (payment_id p) = Some p'"
    and "status p' = confirmed \<or> status p' = overpaid"
    and "status p' \<noteq> status p"
  shows "(\<exists>a balances received records.
            stellar_address p = Some a \<and> loadAccount env a = Inr balances \<and>
            totalReceived env balances = Inr received \<and>
            payments_call env a (query_cursor p) = Inr records \<and>
            newStatus received (amount p) = Some (status p') \<and>
            (\<forall>issuer r.
               getUsdcAsset env = Inr issuer \<and>
               find (expected_transfer issuer) records = Some r \<longrightarrow>
               (payment_id p, op_transaction_hash r, received)
                 \<in> set (verifications (runPaymentMonitorTick env now s)) \<and>
               (event_failure env (payment_id p) = None \<longrightarrow>
                  p' \<in> set (events (runPaymentMonitorTick env now s))))) \<and>
         (\<forall>ef. tdb (runPaymentMonitorTick (env\<lparr>event_failure := ef\<rparr>) now s) =
               tdb (runPaymentMonitorTick env now s))"
proof -
  let ?s1 = "expire_overdue now s"
  let ?ps = "active_payments now ?s1"
  let ?st0 = "\<lparr>tdb = ?s1, verifications = [], events = [], error_log = []\<rparr>"
  have tick_eq: "runPaymentMonitorTick env now s = monitor_loop env ?ps ?st0"
    by (simp add: runPaymentMonitorTick_def Let_def)
  have row: "findUnique s (payment_id p) = Some p"
    using assms(1,2) by (rule findUnique_wf)
  then have p': "p' = tick_row env now p"
    using assms(3) by (simp add: findUnique_tick[OF assms(1)])
  have tr1: "status (tick_row env now p) = confirmed \<or> status (tick_row env now p) = overpaid"
    and tr2: "status (tick_row env now p) \<noteq> status p"
    using assms(4,5) by (simp_all add: p')
  have act: "is_active now p"
    using tr1 tr2 by (rule tick_row_transition)
  have t: "tick_row env now p = monitor_row env p p"
    using tr1 tr2 by (rule tick_row_transition)
  from tick_row_transition(3)[OF tr1 tr2] obtain received sc where
    obs: "observed env p = Some (received, sc)"
    and new: "newStatus received (amount p) = Some (status p')"
    unfolding p' by blast
  from observedD[OF obs] obtain a balances records where
    a: "stellar_address p = Some a" "loadAccount env a = Inr balances"
       "payments_call env a (query_cursor p) = Inr records"
       "totalReceived env balances = Inr received"
       "scan_records env (last_paging_token p) records = Inr sc"
    by blast
  have wf1: "wf_store ?s1"
    using assms(1) by (simp add: wf_store_def expire_overdue_def comp_def)
  have wfps: "wf_store ?ps"
    using wf1 unfolding wf_store_def active_payments_def by (rule distinct_map_filter)
  have "expire_row now p = p"
    using act by (auto simp: expire_row_def is_active_def)
  then have "p \<in> set ?s1"
    using assms(2) by (simp add: expire_overdue_def image_iff) metis
  then have pin: "p \<in> set ?ps"
    using act by (simp add: active_payments_def)
  have inv: "\<forall>q\<in>set ?ps. findUnique (tdb ?st0) (payment_id q) = Some q"
  proof
    fix q assume "q \<in> set ?ps"
    then have "q \<in> set ?s1"
      by (simp add: active_payments_def)
    then show "findUnique (tdb ?st0) (payment_id q) = Some q"
      using wf1 by (simp add: findUnique_wf)
  qed
  have dispatched: "(payment_id p, op_transaction_hash r, received)
        \<in> set (verifications (runPaymentMonitorTick env now s)) \<and>
      (event_failure env (payment_id p) = None \<longrightarrow>
         p' \<in> set (events (runPaymentMonitorTick env now s)))"
    if "getUsdcAsset env = Inr issuer" "find (expected_transfer issuer) records = Some r"
    for issuer r
  proof -
    have h: "latestTxHash sc = Some (op_transaction_hash r)" and tr: "truthy (latestTxHash sc)"
      using scan_records_hash[OF that(1) a(5) that(2)] by simp_all
    show ?thesis
      unfolding tick_eq
      using monitor_loop_settles[OF wfps pin inv obs new assms(4) tr] h
      by (simp add: p' t)
  qed
  have frame: "tdb (runPaymentMonitorTick (env\<lparr>event_failure := ef\<rparr>) now s) =
        tdb (runPaymentMonitorTick env now s)" for ef
    by (rule tick_tdb_event_failure)
  from a(1,2,3,4) new dispatched frame show ?thesis
    by blast
qed

theorem settled_payment_is_dispatched_witness:
  "wf_store example_store \<and> example_pending \<in> set example_store \<and>
   findUnique (tdb (runPaymentMonitorTick example_monitor_env 0 example_store)) ''p4'' =
     Some (example_pending\<lparr>status := confirmed, last_paging_token := Some ''67890'',
                            transaction_hash := Some ''tx_1''\<rparr>) \<and>
   status example_pending = pending \<and>
   (''p4'', ''tx_1'', Fin 100)
     \<in> set (verifications (runPaymentMonitorTick example_monitor_env 0 example_store)) \<and>
   example_pending\<lparr>status := confirmed, last_paging_token := Some ''67890'',
                    transaction_hash := Some ''tx_1''\<rparr>
     \<in> set (events (runPaymentMonitorTick example_monitor_env 0 example_store))"
proof -
  let ?p' = "example_pending\<lparr>status := confirmed, last_paging_token := Some ''67890'',
                             transaction_hash := Some ''tx_1''\<rparr>"
  let ?rec = "\<lparr>paging_token = ''67890'', op_type = ''payment'',
           op_asset_type = Some ''credit_alphanum4'', op_asset_code = Some ''USDC'',
           op_asset_issuer = Some ''GISSUER'', op_transaction_hash = ''tx_1'',
           op_from = ''G_PAYER''\<rparr>"
  let ?T = "runPaymentMonitorTick example_monitor_env 0 example_store"
  have "findUnique example_store (payment_id example_pending) = Some example_pending"
    using example_store_wf example_pending_in by (rule findUnique_wf)
  then have row: "findUnique (tdb ?T) (payment_id example_pending) = Some ?p'"
    by (simp add: findUnique_tick[OF example_store_wf] example_tick_row)
  have st: "status ?p' = confirmed \<or> status ?p' = overpaid"
    by simp
  have ne: "status ?p' \<noteq> status example_pending"
    by (simp add: example_pending_fields)
  from settled_payment_is_dispatched[OF example_store_wf example_pending_in row st ne]
  obtain a balances received records where r:
    "stellar_address example_pending = Some a" "loadAccount example_monitor_env a = Inr balances"
    "totalReceived example_monitor_env balances = Inr received"
    "payments_call example_monitor_env a (query_cursor example_pending) = Inr records"
    and d: "\<forall>issuer r.
       getUsdcAsset example_monitor_env = Inr issuer \<and>
       find (expected_transfer issuer) records = Some r \<longrightarrow>
       (payment_id example_pending, op_transaction_hash r, received) \<in> set (verifications ?T) \<and>
       (event_failure example_monitor_env (payment_id example_pending) = None \<longrightarrow>
          ?p' \<in> set (events ?T))"
    by blast
  have a: "a = ''Gp4''"
    using r(1) by (simp add: example_pending_fields)
  have rec: "records = [?rec]"
    using r(4) by (simp add: a example_ledger)
  have "balances = [\<lparr>asset_code = Some ''USDC'', asset_issuer = Some ''GISSUER'', balance = Fin 100\<rparr>]"
    using r(2) by (simp add: a example_ledger)
  then have rcv: "received = Fin 100"
    using r(3) by (simp add: example_ledger)
  have f: "find (expected_transfer ''GISSUER'') records = Some ?rec"
    by (simp add: rec expected_transfer_def)
  have ef: "event_failure example_monitor_env (payment_id example_pending) = None"
    by (simp add: example_monitor_env_def)
  from d[rule_format, of "''GISSUER''" ?rec] f ef
  have "(payment_id example_pending, ''tx_1'', received) \<in> set (verifications ?T)"
    "?p' \<in> set (events ?T)"
    by (simp_all add: example_ledger)
  then show ?thesis
    using example_store_wf example_pending_in row
    by (simp add: rcv example_pending_fields)
qed

text \<open>
  A tick in which a payment becomes \<open>confirmed\<close> while the ledger returns no record: no
  verification is started and no event is emitted.
\<close>

theorem no_matching_transfer_no_dispatch:
  "status example_pending = pending \<and>
   map status (tdb (runPaymentMonitorTick (example_monitor_env\<lparr>payments_call := (\<lambda>a c. Inr [])\<rparr>) 0
                      [example_pending])) = [confirmed] \<and>
   verifications (runPaymentMonitorTick (example_monitor_env\<lparr>payments_call := (\<lambda>a c. Inr [])\<rparr>) 0
                      [example_pending]) = [] \<and>
   events (runPaymentMonitorTick (example_monitor_env\<lparr>payments_call := (\<lambda>a c. Inr [])\<rparr>) 0
                      [example_pending]) = []"
  by (simp add: runPaymentMonitorTick_def expire_overdue_def expire_row_def active_payments_def
      is_active_def monitor_payment_def payment_update_def upd_row_def ids_def tick_defs
      example_pending_fields example_monitor_env_def)

section \<open>The verification dispatcher\<close>

lemma findUnique_in_ids: "i \<in> ids s \<Longrightarrow> \<exists>q. findUnique s i = Some q"
  using findUnique_None_iff[of s i] by (cases "findUnique s i") simp_all

lemma findUnique_mark:
  "findUnique s i = Some q \<Longrightarrow> findUnique (upd_row i (mark_verified h) s) i = Some (mark_verified h q)"
  "findUnique s i = Some q \<Longrightarrow> findUnique (upd_row i (mark_failed m) s) i = Some (mark_failed m q)"
  by (simp_all add: findUnique_upd_row mark_verified_def mark_failed_def)

lemma less_three: "k < (3::nat) \<Longrightarrow> k = 0 \<or> k = 1 \<or> k = 2"
  by arith

lemma less_two: "k < (2::nat) \<Longrightarrow> k = 0 \<or> k = 1"
  by arith

lemma upt_two: "[0..<(2::nat)] = [0, 1]"
  by (simp add: upt_rec)

lemma verify_succeeds:
  assumes vp: "snd (verify_payment env paymentId txHash amt s) = st"
    and st: "st = \<lparr>vdb = upd_row paymentId (mark_verified h) s, invocations = Suc n,
                    delays = ds, manual_intervention = []\<rparr>"
    and q: "findUnique s paymentId = Some q"
    and call: "invokeVerifyContract env n paymentId txHash amt = Inr h"
    and n: "n < 3"
    and ds: "ds = map (\<lambda>k. 1000 * 2 ^ k) [0..<n]"
    and prev: "\<forall>k<n. \<exists>e. invokeVerifyContract env k paymentId txHash amt = Inl e"
    and conf: "contractId env \<noteq> []"
  shows "verify_post env paymentId txHash amt s True st"
proof -
  have kept: "list_all2 settlement_kept s (vdb st)"
    using verify_payment_kept[of s env paymentId txHash amt] by (simp add: vp)
  have row: "findUnique (vdb st) paymentId = Some (mark_verified h q)"
    using q by (simp add: st findUnique_mark)
  have good: "\<exists>h q. invokeVerifyContract env (invocations st - 1) paymentId txHash amt = Inr h \<and>
           findUnique (vdb st) paymentId = Some q \<and> onchain_verified q \<and>
           verification_error q = None \<and> contract_tx_hash q = Some h"
    using call row
    by (intro exI[of _ h] exI[of _ "mark_verified h q"]) (simp add: st mark_verified_def)
  have 1: "invocations st \<le> 3"
    using n by (simp add: st)
  have 2: "delays st = map (\<lambda>k. 1000 * 2 ^ k) [0..<invocations st - 1]"
    using ds by (simp add: st)
  have 3: "\<forall>k<invocations st - 1. \<exists>e. invokeVerifyContract env k paymentId txHash amt = Inl e"
    using prev by (simp add: st)
  have 4: "manual_intervention st = []"
    by (simp add: st)
  show ?thesis
    unfolding verify_post_def using 1 2 3 4 kept good conf by simp
qed

lemma verify_exhausted:
  assumes vp: "snd (verify_payment env paymentId txHash amt s) = st"
    and st: "st = \<lparr>vdb = upd_row paymentId (mark_failed (errorMessage e2)) s, invocations = 3,
                    delays = [1000, 2000],
                    manual_intervention = [(paymentId, errorMessage e2)]\<rparr>"
    and q: "findUnique s paymentId = Some q"
    and calls: "invokeVerifyContract env 0 paymentId txHash amt = Inl e0"
      "invokeVerifyContract env 1 paymentId txHash amt = Inl e1"
      "invokeVerifyContract env 2 paymentId txHash amt = Inl e2"
    and conf: "contractId env \<noteq> []"
  shows "verify_post env paymentId txHash amt s False st"
proof -
  have kept: "list_all2 settlement_kept s (vdb st)"
    using verify_payment_kept[of s env paymentId txHash amt] by (simp add: vp)
  have row: "findUnique (vdb st) paymentId = Some (mark_failed (errorMessage e2) q)"
    using q by (simp add: st findUnique_mark)
  have bad: "\<exists>e q. invokeVerifyContract env 2 paymentId txHash amt = Inl e \<and>
           findUnique (vdb st) paymentId = Some q \<and>
           verification_error q = Some (errorMessage e) \<and>
           manual_intervention st = [(paymentId, errorMessage e)]"
    using calls(3) row
    by (intro exI[of _ e2] exI[of _ "mark_failed (errorMessage e2) q"])
       (simp add: st mark_failed_def)
  have none: "\<not> (\<exists>k<3. \<exists>h. invokeVerifyContract env k paymentId txHash amt = Inr h)"
  proof
    assume "\<exists>k<3. \<exists>h. invokeVerifyContract env k paymentId txHash amt = Inr h"
    then obtain k h where k: "k < 3" "invokeVerifyContract env k paymentId txHash amt = Inr h"
      by blast
    from less_three[OF k(1)] k(2) calls show False
      by auto
  qed
  have prev: "\<forall>k<invocations st - 1. \<exists>e. invokeVerifyContract env k paymentId txHash amt = Inl e"
  proof (intro allI impI)
    fix k assume "k < invocations st - 1"
    then have "k < 2" by (simp add: st)
    from less_two[OF this] calls(1,2)
    show "\<exists>e. invokeVerifyContract env k paymentId txHash amt = Inl e"
      by auto
  qed
  have 1: "invocations st = 3"
    by (simp add: st)
  have 2: "delays st = map (\<lambda>k. 1000 * 2 ^ k) [0..<invocations st - 1]"
    by (simp add: st upt_two)
  show ?thesis
    unfolding verify_post_def using 1 2 prev kept bad none conf by simp
qed

lemma verify_not_configured:
  assumes "contractId env = []"
  shows "verify_payment env paymentId txHash amt s =
           (Inr False, \<lparr>vdb = s, invocations = 0, delays = [], manual_intervention = []\<rparr>) \<and>
         verify_post env paymentId txHash amt s False
           \<lparr>vdb = s, invocations = 0, delays = [], manual_intervention = []\<rparr>"
  using assms by (simp add: verify_payment_unconfigured verify_post_def settlement_kept_refl)

lemma example_p1_in: "''p1'' \<in> ids example_store"
  by (simp add: ids_def example_store_def example_payment_def)

text \<open>
  C8. For a payment that is in the store, an invocation of \<^verbatim>\<open>verify_payment\<close> returns
  (it does not throw) after at most three calls of the verifier; the delay before the
  \<open>k\<close>-th retry is \<open>1000 * 2 ^ k\<close> milliseconds, \<open>k\<close> from 0; every call before the last one
  failed. It returns true exactly after a call that succeeded, with the row then marked
  \<open>onchain_verified\<close>, its \<open>verification_error\<close> cleared and nothing in the
  manual-intervention log; when the contract is configured, any succeeding call among the
  three makes it return true. When it returns false with the contract configured, three
  calls were made, the message of the third error is in \<open>verification_error\<close> and in the
  manual-intervention log. Without a configured contract it returns false and does
  nothing. In every case \<open>status\<close>, \<open>swept\<close>, \<open>swept_at\<close> and \<open>sweep_tx_hash\<close> of every row
  are as before.
\<close>

theorem verify_payment_bounded_retries:
  assumes "paymentId \<in> ids s"
  shows "\<exists>res st. verify_payment env paymentId txHash amt s = (Inr res, st) \<and>
     invocations st \<le> 3 \<and>
     delays st = map (\<lambda>k. 1000 * 2 ^ k) [0..<invocations st - 1] \<and>
     (\<forall>k<invocations st - 1. \<exists>e. invokeVerifyContract env k paymentId txHash amt = Inl e) \<and>
     list_all2 settlement_kept s (vdb st) \<and>
     (res \<longrightarrow>
        manual_intervention st = [] \<and>
        (\<exists>h q. invokeVerifyContract env (invocations st - 1) paymentId txHash amt = Inr h \<and>
           findUnique (vdb st) paymentId = Some q \<and> onchain_verified q \<and>
           verification_error q = None \<and> contract_tx_hash q = Some h)) \<and>
     (contractId env \<noteq> [] \<and> (\<exists>k<3. \<exists>h. invokeVerifyContract env k paymentId txHash amt = Inr h)
        \<longrightarrow> res) \<and>
     (\<not> res \<and> contractId env \<noteq> [] \<longrightarrow>
        invocations st = 3 \<and>
        (\<exists>e q. invokeVerifyContract env 2 paymentId txHash amt = Inl e \<and>
           findUnique (vdb st) paymentId = Some q \<and>
           verification_error q = Some (errorMessage e) \<and>
           manual_intervention st = [(paymentId, errorMessage e)])) \<and>
     (contractId env = [] \<longrightarrow> \<not> res \<and> invocations st = 0 \<and> vdb st = s)"
proof -
  from findUnique_in_ids[OF assms] obtain q where q: "findUnique s paymentId = Some q"
    by blast
  have "\<exists>res st. verify_payment env paymentId txHash amt s = (Inr res, st) \<and>
      verify_post env paymentId txHash amt s res st"
  proof (cases "contractId env = []")
    case True
    from verify_not_configured[OF True, of paymentId txHash amt s] show ?thesis
      by blast
  next
    case False
    note paths = verify_payment_paths[OF assms False, of txHash amt]
    show ?thesis
    proof (cases "invokeVerifyContract env 0 paymentId txHash amt")
      case r0: (Inr h)
      have vp: "verify_payment env paymentId txHash amt s =
          (Inr True, \<lparr>vdb = upd_row paymentId (mark_verified h) s, invocations = Suc 0,
                      delays = [], manual_intervention = []\<rparr>)"
        using paths r0 by simp
      have "verify_post env paymentId txHash amt s True (snd (verify_payment env paymentId txHash amt s))"
        by (rule verify_succeeds[OF refl _ q r0 _ _ _ False, of "[]"]) (simp_all add: vp)
      then show ?thesis
        using vp by auto
    next
      case l0: (Inl e0)
      show ?thesis
      proof (cases "invokeVerifyContract env 1 paymentId txHash amt")
        case r1: (Inr h)
        have vp: "verify_payment env paymentId txHash amt s =
            (Inr True, \<lparr>vdb = upd_row paymentId (mark_verified h) s, invocations = Suc 1,
                        delays = [1000], manual_intervention = []\<rparr>)"
          using paths l0 r1 by simp
        have "verify_post env paymentId txHash amt s True
            (snd (verify_payment env paymentId txHash amt s))"
          by (rule verify_succeeds[OF refl _ q r1 _ _ _ False, of "[1000]"])
             (simp_all add: vp l0)
        then show ?thesis
          using vp by auto
      next
        case l1: (Inl e1)
        show ?thesis
        proof (cases "invokeVerifyContract env 2 paymentId txHash amt")
          case r2: (Inr h)
          have vp: "verify_payment env paymentId txHash amt s =
              (Inr True, \<lparr>vdb = upd_row paymentId (mark_verified h) s, invocations = Suc 2,
                          delays = [1000, 2000], manual_intervention = []\<rparr>)"
            using paths l0 l1 r2 by simp
          have prev: "\<forall>k<2. \<exists>e. invokeVerifyContract env k paymentId txHash amt = Inl e"
          proof (intro allI impI)
            fix k :: nat assume "k < 2"
            from less_two[OF this] l0 l1
            show "\<exists>e. invokeVerifyContract env k paymentId txHash amt = Inl e"
              by auto
          qed
          have "verify_post env paymentId txHash amt s True
              (snd (verify_payment env paymentId txHash amt s))"
            by (rule verify_succeeds[OF refl _ q r2 _ _ prev False, of "[1000, 2000]"])
               (simp_all add: vp upt_two)
          then show ?thesis
            using vp by auto
        next
          case l2: (Inl e2)
          have vp: "verify_payment env paymentId txHash amt s =
              (Inr False,
               \<lparr>vdb = upd_row paymentId (mark_failed (errorMessage e2)) s, invocations = 3,
                delays = [1000, 2000],
                manual_intervention = [(paymentId, errorMessage e2)]\<rparr>)"
            using paths l0 l1 l2 by simp
          have "verify_post env paymentId txHash amt s False
              (snd (verify_payment env paymentId txHash amt s))"
            by (rule verify_exhausted[OF refl _ q l0 l1 l2 False]) (simp add: vp)
          then show ?thesis
            using vp by auto
        qed
      qed
    qed
  qed
  then show ?thesis
    unfolding verify_post_def by blast
qed

theorem verify_payment_bounded_retries_witness:
  "''p1'' \<in> ids example_store \<and>
   (\<exists>st. verify_payment example_verify_env ''p1'' ''tx_1'' (Fin 100) example_store = (Inr True, st) \<and>
      invocations st = 3 \<and> delays st = [1000, 2000] \<and>
      map_option onchain_verified (findUnique (vdb st) ''p1'') = Some True) \<and>
   (\<exists>st. verify_payment
           (example_verify_env\<lparr>invokeVerifyContract := (\<lambda>k i h a. Inl (Error ''network down''))\<rparr>)
           ''p1'' ''tx_1'' (Fin 100) example_store = (Inr False, st) \<and>
      invocations st = 3 \<and>
      map_option verification_error (findUnique (vdb st) ''p1'') = Some (Some ''network down'') \<and>
      manual_intervention st = [(''p1'', ''network down'')])"
proof -
  let ?A = "example_verify_env"
  let ?B = "example_verify_env\<lparr>invokeVerifyContract := (\<lambda>k i h a. Inl (Error ''network down''))\<rparr>"
  have confA: "contractId ?A \<noteq> []" and confB: "contractId ?B \<noteq> []"
    by (simp_all add: example_verify_env_def)
  have callA: "invokeVerifyContract ?A k i h a = (if k < 2 then Inl (Error ''network down'') else Inr ''ctx_3'')"
    for k i h a
    by (simp add: example_verify_env_def)
  have callB: "invokeVerifyContract ?B k i h a = Inl (Error ''network down'')" for k i h a
    by simp
  from verify_payment_bounded_retries[OF example_p1_in, of ?A "''tx_1''" "Fin 100"]
  obtain res st where a:
    "verify_payment ?A ''p1'' ''tx_1'' (Fin 100) example_store = (Inr res, st)"
    "invocations st \<le> 3"
    "delays st = map (\<lambda>k. 1000 * 2 ^ k) [0..<invocations st - 1]"
    "res \<longrightarrow> (\<exists>h q. invokeVerifyContract ?A (invocations st - 1) ''p1'' ''tx_1'' (Fin 100) = Inr h \<and>
           findUnique (vdb st) ''p1'' = Some q \<and> onchain_verified q \<and>
           verification_error q = None \<and> contract_tx_hash q = Some h)"
    "contractId ?A \<noteq> [] \<and> (\<exists>k<3. \<exists>h. invokeVerifyContract ?A k ''p1'' ''tx_1'' (Fin 100) = Inr h)
        \<longrightarrow> res"
    by blast
  have "\<exists>k<3. \<exists>h. invokeVerifyContract ?A k ''p1'' ''tx_1'' (Fin 100) = Inr h"
    by (intro exI[of _ 2]) (simp add: callA)
  then have resA: "res"
    using a(5) confA by blast
  then obtain h q where hq:
    "invokeVerifyContract ?A (invocations st - 1) ''p1'' ''tx_1'' (Fin 100) = Inr h"
    "findUnique (vdb st) ''p1'' = Some q" "onchain_verified q"
    using a(4) by blast
  have "\<not> invocations st - 1 < 2"
    using hq(1) by (simp add: callA split: if_splits)
  then have invA: "invocations st = 3"
    using a(2) by arith
  have delA: "delays st = [1000, 2000]"
    using a(3) by (simp add: invA upt_two)
  have A: "\<exists>st. verify_payment ?A ''p1'' ''tx_1'' (Fin 100) example_store = (Inr True, st) \<and>
      invocations st = 3 \<and> delays st = [1000, 2000] \<and>
      map_option onchain_verified (findUnique (vdb st) ''p1'') = Some True"
    using a(1) resA invA delA hq(2,3) by (intro exI[of _ st]) simp
  from verify_payment_bounded_retries[OF example_p1_in, of ?B "''tx_1''" "Fin 100"]
  obtain res' st' where b:
    "verify_payment ?B ''p1'' ''tx_1'' (Fin 100) example_store = (Inr res', st')"
    "res' \<longrightarrow> (\<exists>h q. invokeVerifyContract ?B (invocations st' - 1) ''p1'' ''tx_1'' (Fin 100) = Inr h \<and>
           findUnique (vdb st') ''p1'' = Some q \<and> onchain_verified q \<and>
           verification_error q = None \<and> contract_tx_hash q = Some h)"
    "\<not> res' \<and> contractId ?B \<noteq> [] \<longrightarrow>
        invocations st' = 3 \<and>
        (\<exists>e q. invokeVerifyContract ?B 2 ''p1'' ''tx_1'' (Fin 100) = Inl e \<and>
           findUnique (vdb st') ''p1'' = Some q \<and>
           verification_error q = Some (errorMessage e) \<and>
           manual_intervention st' = [(''p1'', errorMessage e)])"
    by blast
  have resB: "\<not> res'"
    using b(2) by (auto simp: callB)
  with b(3) confB obtain e q' where eq:
    "invocations st' = 3" "invokeVerifyContract ?B 2 ''p1'' ''tx_1'' (Fin 100) = Inl e"
    "findUnique (vdb st') ''p1'' = Some q'" "verification_error q' = Some (errorMessage e)"
    "manual_intervention st' = [(''p1'', errorMessage e)]"
    by blast
  have "e = Error ''network down''"
    using eq(2) by (simp add: callB)
  then have B: "\<exists>st. verify_payment ?B ''p1'' ''tx_1'' (Fin 100) example_store = (Inr False, st) \<and>
      invocations st = 3 \<and>
      map_option verification_error (findUnique (vdb st) ''p1'') = Some (Some ''network down'') \<and>
      manual_intervention st = [(''p1'', ''network down'')]"
    using b(1) resB eq by (intro exI[of _ st']) simp
  from example_p1_in A B show ?thesis
    by blast
qed

end
